theory Spec2Isabelle
  imports Complex_Main
begin

section \<open>Data model of \<^verbatim>\<open>the_ark/screen_capture.py\<close>\<close>

text \<open>
  The exceptions the module raises, catches or lets pass. \<open>IndexError\<close> is the
  exception of an out-of-range numpy or list read; \<open>ElementNotVisibleError\<close>, \<open>ElementError\<close>
  and \<open>SeleniumHelperException\<close> (any other \<open>SeleniumHelperExceptions\<close>) come from the Selenium
  helper; \<open>OtherException\<close> is any other \<open>Exception\<close>; \<open>ScreenshotException\<close> and
  \<open>SeleniumError\<close> are the two classes the module itself raises. The seven are taken
  to be disjoint: none of the helper's classes is a subclass of another one listed here.
\<close>

datatype error =
    IndexError
  | ElementNotVisibleError
  | ElementError
  | SeleniumHelperException
  | OtherException
  | ScreenshotException
  | SeleniumError

text \<open>
  A PIL image: its width and its pixel rows, top to bottom (what \<open>numpy.asarray\<close> returns);
  the height is the number of rows. A pixel is a value of a type with a zero, the colour of a
  fresh canvas and of the area a crop box takes from outside its source.
\<close>

record 'p image =
  img_width :: nat
  img_rows :: "'p list list"

definition height :: "'p image \<Rightarrow> nat" where
  "height im = length (img_rows im)"

type_synonym box = "int \<times> int \<times> int \<times> int"

text \<open>The fields \<open>Screenshot.__init__\<close> stores on the instance (the helper \<open>sh\<close> apart).\<close>

record config =
  paginated :: bool
  headers :: "string list option"
  footers :: "string list option"
  scroll_padding :: int
  pixel_match_offset :: int
  file_extenson :: string

section \<open>The PIL and Python operations the module calls\<close>

text \<open>Python's \<open>xs[s:e]\<close>: a negative bound counts from the end, both are cut to the list.\<close>

definition py_slice :: "'a list \<Rightarrow> int \<Rightarrow> int \<Rightarrow> 'a list" where
  "py_slice xs s e =
     (let n = int (length xs);
          s' = (if s < 0 then max 0 (s + n) else min s n);
          e' = (if e < 0 then max 0 (e + n) else min e n)
      in take (nat (e' - s')) (drop (nat s') xs))"

definition pixel_at :: "('p::zero) image \<Rightarrow> int \<Rightarrow> int \<Rightarrow> 'p" where
  "pixel_at im x y =
     (if 0 \<le> y \<and> y < int (height im) \<and> 0 \<le> x \<and> x < int (length (img_rows im ! nat y))
      then img_rows im ! nat y ! nat x else 0)"

text \<open>
  \<open>Image.crop(box)\<close> of the PIL versions that run this Python 2 module: the box is taken as
  it is, a box whose lower edge is above its upper edge (or right edge left of its left edge)
  gives an image of height (width) 0, and the part of the box outside the source is blank.
\<close>

definition crop :: "('p::zero) image \<Rightarrow> box \<Rightarrow> 'p image" where
  "crop im b =
     (case b of (x0, y0, x1, y1) \<Rightarrow>
        \<lparr>img_width = nat (x1 - x0),
         img_rows = map (\<lambda>y. map (\<lambda>x. pixel_at im (x0 + int x) (y0 + int y)) [0..<nat (x1 - x0)])
                        [0..<nat (y1 - y0)]\<rparr>)"

text \<open>\<open>Image.new("RGB", (w, h))\<close>: a blank canvas.\<close>

definition new_image :: "nat \<Rightarrow> nat \<Rightarrow> ('p::zero) image" where
  "new_image w h = \<lparr>img_width = w, img_rows = replicate h (replicate w 0)\<rparr>"

text \<open>\<open>canvas.paste(src, (px, py))\<close>: the pixels of \<open>src\<close> that fall on the canvas replace its own.\<close>

definition paste :: "('p::zero) image \<Rightarrow> 'p image \<Rightarrow> int \<times> int \<Rightarrow> 'p image" where
  "paste canvas src pos =
     (case pos of (px, py) \<Rightarrow>
        canvas\<lparr>img_rows :=
          map (\<lambda>y. map (\<lambda>x.
                 if 0 \<le> int y - py \<and> int y - py < int (height src)
                    \<and> 0 \<le> int x - px \<and> int x - px < int (img_width src)
                 then pixel_at src (int x - px) (int y - py)
                 else pixel_at canvas (int x) (int y))
               [0..<img_width canvas])
              [0..<height canvas]\<rparr>)"

section \<open>\<open>_crop_and_stitch_image\<close>\<close>

text \<open>
  The inner \<open>for y, row in enumerate(header_last_hundred_rows)\<close>, at footer index \<open>i\<close>, entered
  with \<open>crop_row = 0\<close>. It reads \<open>footer_array[i + y]\<close> for every \<open>y\<close> (an out-of-range read
  raises), sets \<open>crop_row\<close> only where \<open>y == pixel_match_offset - 1\<close> matches, and has no branch
  for a row that differs: it just goes on to the next \<open>y\<close>. The result is the value of
  \<open>crop_row\<close> after the loop.
\<close>

fun inner_loop :: "'r list \<Rightarrow> int \<Rightarrow> nat \<Rightarrow> nat \<Rightarrow> 'r list \<Rightarrow> error + int" where
  "inner_loop footer_array off i y [] = Inr 0"
| "inner_loop footer_array off i y (row # rest) =
     (if length footer_array \<le> i + y then Inl IndexError
      else if footer_array ! (i + y) = row
      then (if int y = off - 1 then Inr (int i + off)
            else inner_loop footer_array off i (Suc y) rest)
      else inner_loop footer_array off i (Suc y) rest)"

text \<open>
  The outer \<open>for i, footer_row in enumerate(footer_array)\<close>: \<open>rs\<close> are the footer rows from
  index \<open>i\<close> on, \<open>crop_row\<close> the variable of that name. \<open>header_last_hundred_rows[0]\<close>
  raises on an empty block.
\<close>

fun scan :: "'r list \<Rightarrow> 'r list \<Rightarrow> int \<Rightarrow> nat \<Rightarrow> int \<Rightarrow> 'r list \<Rightarrow> error + int" where
  "scan footer_array block off i crop_row [] = Inr crop_row"
| "scan footer_array block off i crop_row (footer_row # rs) =
     (if crop_row \<noteq> 0 then Inr crop_row
      else (case block of
              [] \<Rightarrow> Inl IndexError
            | b0 # _ \<Rightarrow>
                if footer_row = b0
                then (case inner_loop footer_array off i 0 block of
                        Inl e \<Rightarrow> Inl e
                      | Inr c \<Rightarrow> scan footer_array block off (Suc i) c rs)
                else scan footer_array block off (Suc i) crop_row rs))"

text \<open>The assignment to \<open>self.pixel_match_offset\<close> at the head of the \<open>try\<close> block.\<close>

definition clamp_offset :: "config \<Rightarrow> nat \<Rightarrow> config" where
  "clamp_offset self header_image_height =
     (if pixel_match_offset self > int header_image_height
      then self\<lparr>pixel_match_offset := int header_image_height\<rparr> else self)"

text \<open>\<open>header_array[header_image_height - self.pixel_match_offset: header_image_height]\<close>\<close>

definition header_last_hundred_rows :: "config \<Rightarrow> 'p image \<Rightarrow> 'p list list" where
  "header_last_hundred_rows self header_image =
     py_slice (img_rows header_image)
       (int (height header_image) - pixel_match_offset self) (int (height header_image))"

text \<open>
  The value of \<open>crop_row\<close> when the crop box is built: the scan's result, or the header's
  height where the scan left it at 0. \<open>self\<close> is the instance after the clamping.
\<close>

definition find_crop_row :: "config \<Rightarrow> 'p image \<Rightarrow> 'p image \<Rightarrow> error + int" where
  "find_crop_row self header_image footer_image =
     (case scan (img_rows footer_image) (header_last_hundred_rows self header_image)
             (pixel_match_offset self) 0 0 (img_rows footer_image) of
        Inl e \<Rightarrow> Inl e
      | Inr crop_row \<Rightarrow> Inr (if crop_row = 0 then int (height header_image) else crop_row))"

definition footer_crop_box :: "'p image \<Rightarrow> int \<Rightarrow> box" where
  "footer_crop_box footer_image crop_row =
     (0, crop_row, int (img_width footer_image), int (height footer_image))"

text \<open>
  The whole method: the result, or the \<open>ScreenshotException\<close> that the \<open>except Exception\<close>
  clause raises for anything the body raised, and the instance, whose
  \<open>pixel_match_offset\<close> the body may have overwritten.
\<close>

definition crop_and_stitch_image ::
  "config \<Rightarrow> ('p::zero) image \<Rightarrow> 'p image \<Rightarrow> (error + 'p image) \<times> config" where
  "crop_and_stitch_image self0 header_image footer_image =
     (let header_image_height = height header_image;
          self = clamp_offset self0 header_image_height
      in case find_crop_row self header_image footer_image of
           Inl e \<Rightarrow> (Inl ScreenshotException, self)
         | Inr crop_row \<Rightarrow>
             (let footer_image_width = img_width footer_image;
                  cropped_footer_image = crop footer_image (footer_crop_box footer_image crop_row);
                  cropped_footer_image_height = height cropped_footer_image;
                  total_height = header_image_height + cropped_footer_image_height;
                  stitched_image = new_image footer_image_width total_height;
                  stitched_image = paste stitched_image header_image (0, 0);
                  stitched_image = paste stitched_image cropped_footer_image
                                     (0, int header_image_height)
              in (Inr stitched_image, self)))"

text \<open>The defaults of \<open>Screenshot.__init__\<close>.\<close>

definition DEFAULT_SCROLL_PADDING :: int where
  "DEFAULT_SCROLL_PADDING = 100"

definition SCREENSHOT_FILE_EXTENSION :: string where
  "SCREENSHOT_FILE_EXTENSION = ''png''"

definition DEFAULT_PIXEL_MATCH_OFFSET :: int where
  "DEFAULT_PIXEL_MATCH_OFFSET = 100"

definition default_config :: config where
  "default_config =
     \<lparr>paginated = False, headers = None, footers = None,
      scroll_padding = DEFAULT_SCROLL_PADDING,
      pixel_match_offset = DEFAULT_PIXEL_MATCH_OFFSET,
      file_extenson = SCREENSHOT_FILE_EXTENSION\<rparr>"

section \<open>The Selenium helper\<close>

text \<open>
  Modelled from the spec: the Selenium helper \<open>self.sh\<close>. Its module
  (\<open>the_ark/selenium_helpers.py\<close>) is not among the sources, so the helper is a parameter: the
  operations section 6 of the specification lists, each of which runs on the browser's state
  \<open>'b\<close>, returns that state (changed or not) and either a value or the exception it raised.
  \<open>client_height\<close> is the script \<open>return document.documentElement.clientHeight\<close>;
  \<open>get_screenshot\<close> is \<open>get_screenshot_base64\<close> followed by the decoding into a PIL image.
\<close>

record ('b, 'p) selenium_helper =
  scroll_an_element :: "string \<Rightarrow> bool \<Rightarrow> int option \<Rightarrow> 'b \<Rightarrow> (error + unit) \<times> 'b"
  get_is_element_scroll_position_at_bottom :: "string \<Rightarrow> 'b \<Rightarrow> (error + bool) \<times> 'b"
  scroll_window_to_position :: "int \<Rightarrow> 'b \<Rightarrow> (error + unit) \<times> 'b"
  hide_element :: "string \<Rightarrow> 'b \<Rightarrow> (error + unit) \<times> 'b"
  show_element :: "string \<Rightarrow> 'b \<Rightarrow> (error + unit) \<times> 'b"
  client_height :: "'b \<Rightarrow> (error + int) \<times> 'b"
  get_window_current_scroll_position :: "'b \<Rightarrow> (error + int) \<times> 'b"
  get_screenshot :: "'b \<Rightarrow> (error + 'p image) \<times> 'b"
  desired_capabilities :: "string \<rightharpoonup> bool"
  get_viewport_size :: "'b \<Rightarrow> (error + int \<times> int) \<times> 'b"

text \<open>
  Modelled from the spec: which exceptions are \<open>SeleniumHelperExceptions\<close>, the class
  \<open>capture_page\<close> and \<open>capture_scrolling_element\<close> catch first. The two element errors are
  imported from the helper's module beside it and are taken to be among them.
\<close>

definition is_selenium_helper_exception :: "error \<Rightarrow> bool" where
  "is_selenium_helper_exception e =
     (e = ElementNotVisibleError \<or> e = ElementError \<or> e = SeleniumHelperException)"

text \<open>Sequencing: a raised exception ends the rest of the block, the state stays as it is.\<close>

definition and_then ::
  "('s \<Rightarrow> (error + 'a) \<times> 's) \<Rightarrow> ('a \<Rightarrow> 's \<Rightarrow> (error + 'c) \<times> 's) \<Rightarrow> 's \<Rightarrow> (error + 'c) \<times> 's" where
  "and_then m f s = (case m s of (Inl e, s') \<Rightarrow> (Inl e, s') | (Inr a, s') \<Rightarrow> f a s')"

text \<open>A helper call inside a method of the instance: it works on the browser alone.\<close>

definition on_browser ::
  "('b \<Rightarrow> (error + 'a) \<times> 'b) \<Rightarrow> 'b \<times> config \<Rightarrow> (error + 'a) \<times> ('b \<times> config)" where
  "on_browser m s = (case m (fst s) of (r, b') \<Rightarrow> (r, (b', snd s)))"

text \<open>Python's truth value of an optional list, and of an optional integer.\<close>

fun truthy :: "'a list option \<Rightarrow> bool" where
  "truthy None = False"
| "truthy (Some []) = False"
| "truthy (Some (x # xs)) = True"

fun selectors :: "string list option \<Rightarrow> string list" where
  "selectors None = []"
| "selectors (Some xs) = xs"

fun padding_or :: "int option \<Rightarrow> int \<Rightarrow> int" where
  "padding_or None d = d"
| "padding_or (Some p) d = (if p \<noteq> 0 then p else d)"

section \<open>\<open>_create_image_file\<close>\<close>

text \<open>
  The in-memory file: the format name given to \<open>image.save\<close> and the image saved. The
  format is taken to be one PIL knows.
\<close>

record 'p image_file =
  file_format :: string
  file_image :: "'p image"

definition upper :: "string \<Rightarrow> string" where
  "upper s = map (\<lambda>c. if 97 \<le> (of_char c :: nat) \<and> (of_char c :: nat) \<le> 122
                        then char_of ((of_char c :: nat) - 32) else c) s"

definition create_image_file :: "config \<Rightarrow> 'p image \<Rightarrow> 'p image_file" where
  "create_image_file self img = \<lparr>file_format = upper (file_extenson self), file_image = img\<rparr>"

section \<open>\<open>_get_image_data\<close> and \<open>_capture_single_viewport\<close>\<close>

definition mobile :: "('b, 'p) selenium_helper \<Rightarrow> bool" where
  "mobile sh = (desired_capabilities sh ''mobile'' = Some True)"

definition viewport_crop_box :: "int \<Rightarrow> int \<Rightarrow> int \<Rightarrow> box" where
  "viewport_crop_box current_scroll_position viewport_width viewport_height =
     (0, current_scroll_position, viewport_width, current_scroll_position + viewport_height)"

definition get_image_data ::
  "('b, 'p::zero) selenium_helper \<Rightarrow> bool \<Rightarrow> 'b \<Rightarrow> (error + 'p image) \<times> 'b" where
  "get_image_data sh viewport_only =
     and_then (get_screenshot sh) (\<lambda>img.
       if mobile sh then (\<lambda>b. (Inr img, b))
       else if viewport_only then
         and_then (get_window_current_scroll_position sh) (\<lambda>current_scroll_position.
         and_then (get_viewport_size sh) (\<lambda>size b.
           (Inr (crop img (viewport_crop_box current_scroll_position (fst size) (snd size))), b)))
       else (\<lambda>b. (Inr img, b)))"

definition capture_single_viewport ::
  "('b, 'p::zero) selenium_helper \<Rightarrow> config \<Rightarrow> 'b \<Rightarrow> (error + 'p image_file) \<times> 'b" where
  "capture_single_viewport sh self =
     and_then (get_image_data sh True) (\<lambda>cropped_image b.
       (Inr (create_image_file self cropped_image), b))"

section \<open>\<open>_hide_elements\<close> and \<open>_show_elements\<close>\<close>

fun hide_elements :: "('b, 'p) selenium_helper \<Rightarrow> string list \<Rightarrow> 'b \<Rightarrow> (error + unit) \<times> 'b" where
  "hide_elements sh [] b = (Inr (), b)"
| "hide_elements sh (selector # css_selectors) b =
     (case hide_element sh selector b of
        (Inl e, b') \<Rightarrow>
          if e = ElementNotVisibleError then hide_elements sh css_selectors b'
          else if e = ElementError then hide_elements sh css_selectors b'
          else (Inl e, b')
      | (Inr u, b') \<Rightarrow> hide_elements sh css_selectors b')"

fun show_elements :: "('b, 'p) selenium_helper \<Rightarrow> string list \<Rightarrow> 'b \<Rightarrow> (error + unit) \<times> 'b" where
  "show_elements sh [] b = (Inr (), b)"
| "show_elements sh (selector # css_selectors) b =
     (case show_element sh selector b of
        (Inl e, b') \<Rightarrow>
          if e = ElementError then show_elements sh css_selectors b'
          else (Inl e, b')
      | (Inr u, b') \<Rightarrow> show_elements sh css_selectors b')"

section \<open>\<open>_capture_full_page\<close>\<close>

text \<open>
  The state is the browser and the instance: the stitching writes a field of the instance.
  The two \<open>time.sleep\<close> calls are left out.
\<close>

definition stitch ::
  "('p::zero) image \<Rightarrow> 'p image \<Rightarrow> 'b \<times> config \<Rightarrow> (error + 'p image) \<times> ('b \<times> config)" where
  "stitch header_image footer_image s =
     (case crop_and_stitch_image (snd s) header_image footer_image of
        (r, self') \<Rightarrow> (r, (fst s, self')))"

definition save_file :: "'p image \<Rightarrow> 'b \<times> config \<Rightarrow> (error + 'p image_file) \<times> ('b \<times> config)" where
  "save_file image_data s = (Inr (create_image_file (snd s) image_data), s)"

definition capture_full_page ::
  "('b, 'p::zero) selenium_helper \<Rightarrow> 'b \<times> config \<Rightarrow> (error + 'p image_file) \<times> ('b \<times> config)" where
  "capture_full_page sh s =
     (if truthy (headers (snd s)) \<and> truthy (footers (snd s)) then
        and_then (on_browser (scroll_window_to_position sh 0)) (\<lambda>_.
        and_then (on_browser (hide_elements sh (selectors (footers (snd s))))) (\<lambda>_.
        and_then (on_browser (get_image_data sh True)) (\<lambda>header_image.
        and_then (on_browser (show_elements sh (selectors (footers (snd s))))) (\<lambda>_.
        and_then (on_browser (scroll_window_to_position sh 40000)) (\<lambda>_.
        and_then (on_browser (hide_elements sh (selectors (headers (snd s))))) (\<lambda>_.
        and_then (on_browser (get_image_data sh False)) (\<lambda>footer_image.
        and_then (on_browser (show_elements sh (selectors (headers (snd s))))) (\<lambda>_.
        and_then (stitch header_image footer_image) save_file)))))))) s
      else if truthy (headers (snd s)) then
        and_then (on_browser (scroll_window_to_position sh 0)) (\<lambda>_.
        and_then (on_browser (get_image_data sh False)) save_file) s
      else if truthy (footers (snd s)) then
        and_then (on_browser (scroll_window_to_position sh 40000)) (\<lambda>_.
        and_then (on_browser (get_image_data sh False)) save_file) s
      else
        and_then (on_browser (get_image_data sh False)) save_file s)"

section \<open>\<open>_capture_paginated_page\<close>\<close>

text \<open>
  The \<open>while True\<close> loop. Whether it ends depends on the browser, so it returns an option:
  \<open>None\<close> is a loop that never ends. \<open>time.sleep\<close> is left out.
\<close>

partial_function (option) paginated_loop ::
  "('b, 'p::zero) selenium_helper \<Rightarrow> config \<Rightarrow> int \<Rightarrow> int \<Rightarrow> int \<Rightarrow> 'p image_file list \<Rightarrow> 'b
     \<Rightarrow> ((error + 'p image_file list) \<times> 'b) option" where
  "paginated_loop sh self viewport_height scroll_pad current_scroll_position image_list b =
     (case capture_single_viewport sh self b of
        (Inl e, b1) \<Rightarrow> Some (Inl e, b1)
      | (Inr img, b1) \<Rightarrow>
          (case scroll_window_to_position sh
                  (current_scroll_position + viewport_height - scroll_pad) b1 of
             (Inl e, b2) \<Rightarrow> Some (Inl e, b2)
           | (Inr u, b2) \<Rightarrow>
               (case get_window_current_scroll_position sh b2 of
                  (Inl e, b3) \<Rightarrow> Some (Inl e, b3)
                | (Inr new_scroll_position, b3) \<Rightarrow>
                    if new_scroll_position = current_scroll_position
                    then Some (Inr (image_list @ [img]), b3)
                    else paginated_loop sh self viewport_height scroll_pad
                           new_scroll_position (image_list @ [img]) b3)))"

definition capture_paginated_page ::
  "('b, 'p::zero) selenium_helper \<Rightarrow> config \<Rightarrow> int option \<Rightarrow> 'b
     \<Rightarrow> ((error + 'p image_file list) \<times> 'b) option" where
  "capture_paginated_page sh self padding b =
     (let scroll_pad = padding_or padding (scroll_padding self) in
      case scroll_window_to_position sh 0 b of
        (Inl e, b1) \<Rightarrow> Some (Inl e, b1)
      | (Inr u, b1) \<Rightarrow>
          (case client_height sh b1 of
             (Inl e, b2) \<Rightarrow> Some (Inl e, b2)
           | (Inr viewport_height, b2) \<Rightarrow>
               paginated_loop sh self viewport_height scroll_pad 0 [] b2))"

section \<open>\<open>capture_page\<close> and \<open>capture_scrolling_element\<close>\<close>

datatype 'p captured = One "'p image_file" | Many "'p image_file list"

text \<open>The two \<open>except\<close> clauses that close both entry points.\<close>

definition reraise :: "error \<Rightarrow> error" where
  "reraise e = (if is_selenium_helper_exception e then SeleniumError else ScreenshotException)"

fun wrapped :: "(('e + 'a) \<times> 's) \<Rightarrow> ('a \<Rightarrow> 'c) \<Rightarrow> ('e \<Rightarrow> 'e) \<Rightarrow> (('e + 'c) \<times> 's)" where
  "wrapped (Inl e, s) f g = (Inl (g e), s)"
| "wrapped (Inr a, s) f g = (Inr (f a), s)"

definition capture_page ::
  "('b, 'p::zero) selenium_helper \<Rightarrow> bool \<Rightarrow> int option \<Rightarrow> 'b \<times> config
     \<Rightarrow> ((error + 'p captured) \<times> ('b \<times> config)) option" where
  "capture_page sh viewport_only padding s =
     (if viewport_only then
        Some (wrapped (on_browser (capture_single_viewport sh (snd s)) s) One reraise)
      else if paginated (snd s) then
        (case capture_paginated_page sh (snd s) padding (fst s) of
           None \<Rightarrow> None
         | Some (r, b') \<Rightarrow> Some (wrapped (r, (b', snd s)) Many reraise))
      else Some (wrapped (capture_full_page sh s) One reraise))"

partial_function (option) scrolling_loop ::
  "('b, 'p::zero) selenium_helper \<Rightarrow> string \<Rightarrow> bool \<Rightarrow> int \<Rightarrow> 'p image_file list \<Rightarrow> 'b \<times> config
     \<Rightarrow> ((error + 'p image_file list) \<times> ('b \<times> config)) option" where
  "scrolling_loop sh css_selector viewport_only padding image_list s =
     (case (if viewport_only then on_browser (capture_single_viewport sh (snd s)) s
            else capture_full_page sh s) of
        (Inl e, s1) \<Rightarrow> Some (Inl e, s1)
      | (Inr img, s1) \<Rightarrow>
          (case on_browser (get_is_element_scroll_position_at_bottom sh css_selector) s1 of
             (Inl e, s2) \<Rightarrow> Some (Inl e, s2)
           | (Inr at_bottom, s2) \<Rightarrow>
               if at_bottom then Some (Inr (image_list @ [img]), s2)
               else (case on_browser (scroll_an_element sh css_selector False (Some padding)) s2 of
                       (Inl e, s3) \<Rightarrow> Some (Inl e, s3)
                     | (Inr u, s3) \<Rightarrow>
                         scrolling_loop sh css_selector viewport_only padding
                           (image_list @ [img]) s3)))"

definition capture_scrolling_element ::
  "('b, 'p::zero) selenium_helper \<Rightarrow> string \<Rightarrow> bool \<Rightarrow> int option \<Rightarrow> 'b \<times> config
     \<Rightarrow> ((error + 'p captured) \<times> ('b \<times> config)) option" where
  "capture_scrolling_element sh css_selector viewport_only scroll_padding_arg s =
     (let padding = padding_or scroll_padding_arg (scroll_padding (snd s)) in
      case on_browser (scroll_an_element sh css_selector True None) s of
        (Inl e, s1) \<Rightarrow> Some (Inl (reraise e), s1)
      | (Inr u, s1) \<Rightarrow>
          (case scrolling_loop sh css_selector viewport_only padding [] s1 of
             None \<Rightarrow> None
           | Some r \<Rightarrow> Some (wrapped r Many reraise)))"

section \<open>Predicates of the specification\<close>

text \<open>
  The block \<open>B\<close> occurs in the footer rows \<open>F\<close> at row \<open>i\<close>: the \<open>length B\<close> rows from
  \<open>i\<close> on exist and equal those of \<open>B\<close>, row by row.
\<close>

definition block_at :: "'r list \<Rightarrow> 'r list \<Rightarrow> nat \<Rightarrow> bool" where
  "block_at F B i = (take (length B) (drop i F) = B)"

text \<open>A crop box lies within the bounds of the image it is applied to.\<close>

definition box_in_image :: "box \<Rightarrow> 'p image \<Rightarrow> bool" where
  "box_in_image b im =
     (case b of (x0, y0, x1, y1) \<Rightarrow>
        0 \<le> x0 \<and> x0 \<le> x1 \<and> x1 \<le> int (img_width im) \<and> 0 \<le> y0 \<and> y0 \<le> y1 \<and> y1 \<le> int (height im))"

text \<open>
  The failures each sweep passes over: the exception classes its \<open>except\<close> clauses name.
\<close>

definition hide_tolerated :: "error \<Rightarrow> bool" where
  "hide_tolerated e = (e = ElementNotVisibleError \<or> e = ElementError)"

definition show_tolerated :: "error \<Rightarrow> bool" where
  "show_tolerated e = (e = ElementError)"

text \<open>The browser after the toggle was attempted on every selector of the list, in order.\<close>

fun attempts :: "(string \<Rightarrow> 'b \<Rightarrow> (error + unit) \<times> 'b) \<Rightarrow> string list \<Rightarrow> 'b \<Rightarrow> 'b" where
  "attempts toggle [] b = b"
| "attempts toggle (selector # css_selectors) b =
     attempts toggle css_selectors (snd (toggle selector b))"

text \<open>Attempted in order, every toggle of the list succeeds or fails with a tolerated failure.\<close>

fun all_pass ::
  "(error \<Rightarrow> bool) \<Rightarrow> (string \<Rightarrow> 'b \<Rightarrow> (error + unit) \<times> 'b) \<Rightarrow> string list \<Rightarrow> 'b \<Rightarrow> bool" where
  "all_pass tolerated toggle [] b = True"
| "all_pass tolerated toggle (selector # css_selectors) b =
     ((case fst (toggle selector b) of Inl e \<Rightarrow> tolerated e | Inr u \<Rightarrow> True)
      \<and> all_pass tolerated toggle css_selectors (snd (toggle selector b)))"

text \<open>
  What a capture operation leaves of the instance: every field but \<open>pixel_match_offset\<close> as it
  was, and \<open>pixel_match_offset\<close> no larger than it was.
\<close>

definition same_but_offset :: "config \<Rightarrow> config \<Rightarrow> bool" where
  "same_but_offset self self' =
     (paginated self' = paginated self \<and> headers self' = headers self
      \<and> footers self' = footers self \<and> scroll_padding self' = scroll_padding self
      \<and> file_extenson self' = file_extenson self
      \<and> pixel_match_offset self' \<le> pixel_match_offset self)"

text \<open>The number of images a paginated capture returned, if it returned images.\<close>

definition image_count :: "((error + 'a list) \<times> 'b) option \<Rightarrow> nat option" where
  "image_count r = (case r of Some (Inr fs, b) \<Rightarrow> Some (length fs) | _ \<Rightarrow> None)"

section \<open>Browsers for the properties and the examples\<close>

text \<open>
  Modelled from the spec: the browser of the pagination property, a page of height \<open>Hp\<close>
  shown in a viewport of height \<open>V\<close> and width \<open>W\<close>, which clamps a requested scroll
  position to at most \<open>Hp - V\<close> and, as every browser does, to at least 0. Its state is the
  scroll position; every call succeeds, the screenshot is always \<open>page\<close>, and it is not a
  mobile browser.
\<close>

definition clamping_browser :: "int \<Rightarrow> int \<Rightarrow> int \<Rightarrow> 'p image \<Rightarrow> (int, 'p) selenium_helper" where
  "clamping_browser Hp V W page =
     \<lparr>scroll_an_element = (\<lambda>css top pad b. (Inr (), b)),
      get_is_element_scroll_position_at_bottom = (\<lambda>css b. (Inr True, b)),
      scroll_window_to_position = (\<lambda>target b. (Inr (), max 0 (min target (Hp - V)))),
      hide_element = (\<lambda>css b. (Inr (), b)),
      show_element = (\<lambda>css b. (Inr (), b)),
      client_height = (\<lambda>b. (Inr V, b)),
      get_window_current_scroll_position = (\<lambda>b. (Inr b, b)),
      get_screenshot = (\<lambda>b. (Inr page, b)),
      desired_capabilities = Map.empty,
      get_viewport_size = (\<lambda>b. (Inr (W, V), b))\<rparr>"

text \<open>
  A browser for the examples of the visibility sweeps: its state is the list of the selectors
  whose toggle was attempted, and a toggle raises what the table \<open>failing\<close> holds for its
  selector. The other operations do nothing.
\<close>

definition recording_browser :: "(string \<rightharpoonup> error) \<Rightarrow> (string list, nat) selenium_helper" where
  "recording_browser failing =
     \<lparr>scroll_an_element = (\<lambda>css top pad b. (Inr (), b)),
      get_is_element_scroll_position_at_bottom = (\<lambda>css b. (Inr True, b)),
      scroll_window_to_position = (\<lambda>target b. (Inr (), b)),
      hide_element = (\<lambda>css b. (case failing css of None \<Rightarrow> Inr () | Some e \<Rightarrow> Inl e, b @ [css])),
      show_element = (\<lambda>css b. (case failing css of None \<Rightarrow> Inr () | Some e \<Rightarrow> Inl e, b @ [css])),
      client_height = (\<lambda>b. (Inr 1, b)),
      get_window_current_scroll_position = (\<lambda>b. (Inr 0, b)),
      get_screenshot = (\<lambda>b. (Inr \<lparr>img_width = 1, img_rows = [ [0] ]\<rparr>, b)),
      desired_capabilities = Map.empty,
      get_viewport_size = (\<lambda>b. (Inr (1, 1), b))\<rparr>"

section \<open>Properties of the image operations\<close>

lemma height_crop: "height (crop im (x0, y0, x1, y1)) = nat (y1 - y0)"
  by (simp add: crop_def height_def)

lemma width_crop: "img_width (crop im (x0, y0, x1, y1)) = nat (x1 - x0)"
  by (simp add: crop_def)

lemma height_new_image: "height (new_image w h) = h"
  by (simp add: new_image_def height_def)

lemma width_new_image: "img_width (new_image w h) = w"
  by (simp add: new_image_def)

lemma height_paste: "height (paste canvas src pos) = height canvas"
  by (cases pos) (simp add: paste_def height_def)

lemma width_paste: "img_width (paste canvas src pos) = img_width canvas"
  by (cases pos) (simp add: paste_def)

section \<open>The seam scan\<close>

lemma py_slice_tail:
  "0 \<le> off \<Longrightarrow> off \<le> int (length xs) \<Longrightarrow>
   py_slice xs (int (length xs) - off) (int (length xs)) = drop (length xs - nat off) xs"
  by (simp add: py_slice_def Let_def nat_diff_distrib')

lemma py_slice_tail_neg:
  "off \<le> 0 \<Longrightarrow> py_slice xs (int (length xs) - off) (int (length xs)) = []"
  by (simp add: py_slice_def Let_def)

lemma inner_loop_last:
  assumes "bs \<noteq> []" "off = int (y + length bs)"
  shows "inner_loop F off i y bs =
     (if i + y + length bs \<le> length F
      then (if F ! (i + y + length bs - 1) = last bs then Inr (int i + off) else Inr 0)
      else Inl IndexError)"
  using assms
proof (induction bs arbitrary: y)
  case Nil
  then show ?case by simp
next
  case (Cons b bs)
  show ?case
  proof (cases bs)
    case Nil
    with Cons.prems show ?thesis by auto
  next
    case (Cons b' bs')
    have ih: "inner_loop F off i (Suc y) bs =
     (if i + Suc y + length bs \<le> length F
      then (if F ! (i + Suc y + length bs - 1) = last bs then Inr (int i + off) else Inr 0)
      else Inl IndexError)"
      using Cons.IH[of "Suc y"] Cons.prems Cons by simp
    have ny: "int y \<noteq> off - 1" using Cons.prems Cons by simp
    show ?thesis using ih ny Cons by auto
  qed
qed

lemma scan_nonzero: "c \<noteq> 0 \<Longrightarrow> scan F B off i c rs = Inr c"
  by (cases rs) simp_all

lemma scan_step:
  assumes "B \<noteq> []" "off = int (length B)"
  shows "scan F B off i 0 (r # rs) =
     (if r = hd B
      then (if i + length B \<le> length F
            then (if F ! (i + length B - 1) = last B then Inr (int i + off)
                  else scan F B off (Suc i) 0 rs)
            else Inl IndexError)
      else scan F B off (Suc i) 0 rs)"
proof -
  obtain b0 bs where B: "B = b0 # bs" using assms(1) by (cases B) auto
  have il: "inner_loop F off i 0 B =
     (if i + length B \<le> length F
      then (if F ! (i + length B - 1) = last B then Inr (int i + off) else Inr 0)
      else Inl IndexError)"
    using inner_loop_last[of B off 0 F i] assms by simp
  have nz: "int i + off \<noteq> 0" using assms B by simp
  show ?thesis
    unfolding scan.simps(2)[of F B off i 0 r rs] il using nz B
    by (simp add: scan_nonzero)
qed

lemma drop_ConsD:
  assumes "drop i F = r # rs"
  shows "i < length F" "F ! i = r" "drop (Suc i) F = rs"
proof -
  show lt: "i < length F" using assms by (cases "i < length F") auto
  from Cons_nth_drop_Suc[OF lt] assms show "F ! i = r" "drop (Suc i) F = rs" by auto
qed

lemma scan_found:
  assumes "B \<noteq> []" "off = int (length B)" "drop i F = rs"
    and "i \<le> k" "k + length B \<le> length F" "F ! k = hd B" "F ! (k + length B - 1) = last B"
    and "\<forall>j. i \<le> j \<and> j < k \<longrightarrow> \<not> (F ! j = hd B \<and> F ! (j + length B - 1) = last B)"
  shows "scan F B off i 0 rs = Inr (int k + off)"
  using assms(3-)
proof (induction rs arbitrary: i)
  case Nil
  then have "length F \<le> i" by simp
  with Nil.prems assms(1) show ?case by (cases B) auto
next
  case (Cons r rs)
  note d = drop_ConsD[OF Cons.prems(1)]
  show ?case
  proof (cases "i = k")
    case True
    then show ?thesis
      using scan_step[OF assms(1,2), of F i r rs] d Cons.prems by simp
  next
    case False
    then have lt: "i < k" using Cons.prems by simp
    have ih: "scan F B off (Suc i) 0 rs = Inr (int k + off)"
      using Cons.IH[of "Suc i"] d lt Cons.prems by simp
    have rng: "i + length B \<le> length F" using lt Cons.prems by simp
    have na: "\<not> (F ! i = hd B \<and> F ! (i + length B - 1) = last B)"
      using Cons.prems(6) lt by simp
    show ?thesis
      using scan_step[OF assms(1,2), of F i r rs] d ih rng na by auto
  qed
qed

lemma scan_none:
  assumes "B \<noteq> []" "off = int (length B)" "drop i F = rs"
    and "\<forall>k. i \<le> k \<and> k < length F \<and> F ! k = hd B \<longrightarrow>
             k + length B \<le> length F \<and> F ! (k + length B - 1) \<noteq> last B"
  shows "scan F B off i 0 rs = Inr 0"
  using assms(3-)
proof (induction rs arbitrary: i)
  case Nil
  then show ?case by simp
next
  case (Cons r rs)
  note d = drop_ConsD[OF Cons.prems(1)]
  have ih: "scan F B off (Suc i) 0 rs = Inr 0"
    using Cons.IH[of "Suc i"] d Cons.prems by simp
  have here: "F ! i = hd B \<longrightarrow> i + length B \<le> length F \<and> F ! (i + length B - 1) \<noteq> last B"
    using Cons.prems(2) d(1) by blast
  show ?case
    using scan_step[OF assms(1,2), of F i r rs] d ih here by auto
qed

lemma scan_safe:
  assumes "B \<noteq> []" "off = int (length B)" "drop i F = rs"
    and "\<forall>k. i \<le> k \<and> k < length F \<and> length F < k + length B \<longrightarrow> F ! k \<noteq> hd B"
  shows "\<exists>c. scan F B off i 0 rs = Inr c"
  using assms(3-)
proof (induction rs arbitrary: i)
  case Nil
  then show ?case by simp
next
  case (Cons r rs)
  note d = drop_ConsD[OF Cons.prems(1)]
  have ih: "\<exists>c. scan F B off (Suc i) 0 rs = Inr c"
    using Cons.IH[of "Suc i"] d Cons.prems by simp
  have here: "F ! i = hd B \<longrightarrow> i + length B \<le> length F"
    using Cons.prems(2) d(1) by (meson le_refl not_le_imp_less)
  show ?case
    using scan_step[OF assms(1,2), of F i r rs] d ih here by auto
qed

lemma scan_Inr:
  assumes "B \<noteq> []" "off = int (length B)" "drop i F = rs"
    and "scan F B off i 0 rs = Inr c" "c \<noteq> 0"
  shows "\<exists>k. i \<le> k \<and> c = int k + off \<and> k + length B \<le> length F
             \<and> F ! k = hd B \<and> F ! (k + length B - 1) = last B
             \<and> (\<forall>j. i \<le> j \<and> j < k \<longrightarrow> \<not> (F ! j = hd B \<and> F ! (j + length B - 1) = last B))"
  using assms(3-)
proof (induction rs arbitrary: i)
  case Nil
  then show ?case by simp
next
  case (Cons r rs)
  note d = drop_ConsD[OF Cons.prems(1)]
  let ?acc = "\<lambda>j. F ! j = hd B \<and> F ! (j + length B - 1) = last B"
  show ?case
  proof (cases "r = hd B \<and> i + length B \<le> length F \<and> F ! (i + length B - 1) = last B")
    case True
    then have "c = int i + off"
      using scan_step[OF assms(1,2), of F i r rs] Cons.prems by simp
    then show ?thesis using True d by (intro exI[of _ i]) auto
  next
    case False
    then have rec: "scan F B off (Suc i) 0 rs = Inr c"
      using scan_step[OF assms(1,2), of F i r rs] Cons.prems
      by (auto split: if_splits)
    have inr: "r = hd B \<longrightarrow> i + length B \<le> length F"
      using scan_step[OF assms(1,2), of F i r rs] Cons.prems
      by (auto split: if_splits)
    from Cons.IH[OF d(3) rec Cons.prems(3)]
    obtain k where k: "Suc i \<le> k" "c = int k + off" "k + length B \<le> length F"
      "?acc k" "\<forall>j. Suc i \<le> j \<and> j < k \<longrightarrow> \<not> ?acc j" by blast
    have ni: "\<not> ?acc i" using False inr d by auto
    have "\<forall>j. i \<le> j \<and> j < k \<longrightarrow> \<not> ?acc j"
    proof (intro allI impI)
      fix j assume "i \<le> j \<and> j < k"
      then show "\<not> ?acc j" using ni k(5) by (cases "j = i") auto
    qed
    with k show ?thesis by (intro exI[of _ k]) auto
  qed
qed

lemma block_facts:
  assumes "0 < pixel_match_offset self" "0 < height H"
  defines "self' \<equiv> clamp_offset self (height H)"
  shows "0 < pixel_match_offset self'" "pixel_match_offset self' \<le> int (height H)"
    "header_last_hundred_rows self' H = drop (height H - nat (pixel_match_offset self')) (img_rows H)"
    "int (length (header_last_hundred_rows self' H)) = pixel_match_offset self'"
    "header_last_hundred_rows self' H \<noteq> []"
proof -
  show p: "0 < pixel_match_offset self'" using assms by (simp add: clamp_offset_def)
  show q: "pixel_match_offset self' \<le> int (height H)" using assms by (simp add: clamp_offset_def)
  show r: "header_last_hundred_rows self' H = drop (height H - nat (pixel_match_offset self')) (img_rows H)"
    unfolding header_last_hundred_rows_def height_def
    using py_slice_tail[of "pixel_match_offset self'" "img_rows H"] p q
    by (simp add: height_def)
  show l: "int (length (header_last_hundred_rows self' H)) = pixel_match_offset self'"
    unfolding r using p q by (simp add: height_def)
  show "header_last_hundred_rows self' H \<noteq> []" using l p by auto
qed

lemma block_nonempty_length:
  assumes "header_last_hundred_rows (clamp_offset self (height H)) H \<noteq> []"
  shows "int (length (header_last_hundred_rows (clamp_offset self (height H)) H))
           = pixel_match_offset (clamp_offset self (height H))"
proof -
  let ?s = "clamp_offset self (height H)"
  have le: "pixel_match_offset ?s \<le> int (height H)" by (simp add: clamp_offset_def)
  have pos: "0 < pixel_match_offset ?s"
  proof (rule ccontr)
    assume "\<not> 0 < pixel_match_offset ?s"
    then have "header_last_hundred_rows ?s H = []"
      unfolding header_last_hundred_rows_def height_def
      using py_slice_tail_neg[of "pixel_match_offset ?s" "img_rows H"] by (simp add: height_def)
    with assms show False by simp
  qed
  have "header_last_hundred_rows ?s H = drop (height H - nat (pixel_match_offset ?s)) (img_rows H)"
    unfolding header_last_hundred_rows_def height_def
    using py_slice_tail[of "pixel_match_offset ?s" "img_rows H"] pos le
    by (simp add: height_def)
  then show ?thesis using pos le by (simp add: height_def)
qed

lemma stitched_size:
  assumes "find_crop_row (clamp_offset self (height H)) H F = Inr c"
  shows "crop_and_stitch_image self H F =
           (Inr (paste (paste (new_image (img_width F) (height H + nat (int (height F) - c))) H (0, 0))
                   (crop F (footer_crop_box F c)) (0, int (height H))),
            clamp_offset self (height H))"
  using assms by (simp add: crop_and_stitch_image_def Let_def footer_crop_box_def height_crop)

text \<open>
  The crop row is the header's height (the fallback) or the end of an accepted position,
  which lies within the footer.
\<close>

lemma find_crop_row_cases:
  assumes "find_crop_row (clamp_offset self (height H)) H F = Inr c"
  shows "c = int (height H) \<or> (0 < c \<and> c \<le> int (height F))"
proof -
  let ?s = "clamp_offset self (height H)"
  let ?B = "header_last_hundred_rows ?s H"
  from assms obtain c0 where sc: "scan (img_rows F) ?B (pixel_match_offset ?s) 0 0 (img_rows F) = Inr c0"
    and c: "c = (if c0 = 0 then int (height H) else c0)"
    by (auto simp: find_crop_row_def split: sum.splits)
  show ?thesis
  proof (cases "c0 = 0")
    case True
    then show ?thesis using c by simp
  next
    case False
    have ne: "?B \<noteq> []"
    proof
      assume e: "?B = []"
      show False
      proof (cases "img_rows F")
        case Nil
        then show ?thesis using sc False by simp
      next
        case (Cons r rs)
        then show ?thesis using sc e by simp
      qed
    qed
    have off: "pixel_match_offset ?s = int (length ?B)"
      using block_nonempty_length[OF ne] by simp
    from scan_Inr[OF ne off _ sc False, of ] obtain k where
      k: "c0 = int k + pixel_match_offset ?s" "k + length ?B \<le> length (img_rows F)"
      by auto
    have lp: "0 < length ?B" using ne by simp
    have "0 < c0" using k(1) off lp by linarith
    moreover have "c0 \<le> int (height F)" using k off unfolding height_def by linarith
    ultimately have "0 < c0 \<and> c0 \<le> int (height F)" by simp
    then show ?thesis using c False by simp
  qed
qed

lemma block_at_nth:
  assumes "block_at F B i" "y < length B"
  shows "i + y < length F" "F ! (i + y) = B ! y"
proof -
  have l: "length (take (length B) (drop i F)) = length B"
    using assms(1) by (simp add: block_at_def)
  then show "i + y < length F" using assms(2) by simp
  have "take (length B) (drop i F) ! y = B ! y" using assms(1) by (simp add: block_at_def)
  then show "F ! (i + y) = B ! y" using assms(2) l by simp
qed

lemma block_at_hd:
  assumes "block_at F B i" "B \<noteq> []"
  shows "i < length F" "F ! i = hd B"
  using block_at_nth[OF assms(1), of 0] assms(2) by (simp_all add: hd_conv_nth)

section \<open>Claims about \<open>_crop_and_stitch_image\<close>\<close>



text \<open>
  Claim C1 (the seam search verifies the full block and takes the first qualifying position).
  The code does not: its inner loop has no branch for a row that differs, so a position is
  accepted as soon as the first and the last row of the block are found there. With the
  header rows 1, 2, 3 (the block, the offset being clamped to 3) and the footer rows
  9, 1, 8, 3, 4 the block occurs at no footer row, so a scan that verified it would leave
  \<open>crop_row\<close> at 0 and the method would crop at the header's height 3. The scan of the code
  accepts row 1, where footer row \<open>1 + 1\<close> differs from block row 1, and sets
  \<open>cropRow = 1 + 3\<close>.
\<close>

theorem seam_accepts_unverified_block:
  "scan [ [9::nat], [1], [8], [3], [4] ] [ [1], [2], [3] ] 3 0 0 [ [9], [1], [8], [3], [4] ]
     = Inr (1 + 3)
   \<and> find_crop_row (clamp_offset default_config 3)
      \<lparr>img_width = 1, img_rows = [ [1::nat], [2], [3] ]\<rparr>
      \<lparr>img_width = 1, img_rows = [ [9], [1], [8], [3], [4] ]\<rparr> = Inr (1 + 3)
   \<and> header_last_hundred_rows (clamp_offset default_config 3)
        \<lparr>img_width = 1, img_rows = [ [1::nat], [2], [3] ]\<rparr> = [ [1], [2], [3] ]
   \<and> pixel_match_offset (clamp_offset default_config 3) = 3
   \<and> [ [9::nat], [1], [8], [3], [4] ] ! (1 + 1) \<noteq> [ [1], [2], [3] ] ! 1
   \<and> \<not> block_at [ [9::nat], [1], [8], [3], [4] ] [ [1], [2], [3] ] 0
   \<and> \<not> block_at [ [9::nat], [1], [8], [3], [4] ] [ [1], [2], [3] ] 1
   \<and> \<not> block_at [ [9::nat], [1], [8], [3], [4] ] [ [1], [2], [3] ] 2
   \<and> \<not> block_at [ [9::nat], [1], [8], [3], [4] ] [ [1], [2], [3] ] 3
   \<and> \<not> block_at [ [9::nat], [1], [8], [3], [4] ] [ [1], [2], [3] ] 4
   \<and> (1 + 3 :: int) \<noteq> int (height \<lparr>img_width = 1, img_rows = [ [1::nat], [2], [3] ]\<rparr>)"
  by (simp add: find_crop_row_def clamp_offset_def default_config_def DEFAULT_PIXEL_MATCH_OFFSET_def
        header_last_hundred_rows_def py_slice_def height_def block_at_def)

text \<open>
  Claim C2 (stitch overlap postcondition). With the header rows 1, 2, 3 and the footer rows
  1, 9, 3, 1, 2, 3, 7 the band of \<open>N = 3\<close> rows is the end of the header, begins at footer row
  \<open>r = 3\<close> and occurs at no earlier row; the claim gives the height \<open>3 + (7 - (3 + 3)) = 4\<close>.
  The method accepts row 0, where only the first and the last row of the band are found, and
  returns an image of height 7.
\<close>

theorem stitch_overlap_misses_band:
  "map_sum id height (fst (crop_and_stitch_image default_config
      \<lparr>img_width = 1, img_rows = [ [1::nat], [2], [3] ]\<rparr>
      \<lparr>img_width = 1, img_rows = [ [1], [9], [3], [1], [2], [3], [7] ]\<rparr>)) = Inr 7
   \<and> block_at [ [1::nat], [9], [3], [1], [2], [3], [7] ] [ [1], [2], [3] ] 3
   \<and> \<not> block_at [ [1::nat], [9], [3], [1], [2], [3], [7] ] [ [1], [2], [3] ] 0
   \<and> \<not> block_at [ [1::nat], [9], [3], [1], [2], [3], [7] ] [ [1], [2], [3] ] 1
   \<and> \<not> block_at [ [1::nat], [9], [3], [1], [2], [3], [7] ] [ [1], [2], [3] ] 2
   \<and> (7::nat) \<noteq> 3 + (7 - (3 + 3))"
proof -
  have c: "find_crop_row (clamp_offset default_config
             (height \<lparr>img_width = 1, img_rows = [ [1::nat], [2], [3] ]\<rparr>))
      \<lparr>img_width = 1, img_rows = [ [1::nat], [2], [3] ]\<rparr>
      \<lparr>img_width = 1, img_rows = [ [1], [9], [3], [1], [2], [3], [7] ]\<rparr> = Inr 3"
    by (simp add: find_crop_row_def clamp_offset_def default_config_def DEFAULT_PIXEL_MATCH_OFFSET_def
        header_last_hundred_rows_def py_slice_def height_def)
  show ?thesis
    unfolding stitched_size[OF c]
    by (simp add: height_paste height_new_image block_at_def) (simp add: height_def)
qed

text \<open>
  Claim C3, amended (stitch fallback). For every header image of height \<open>H1 \<ge> 1\<close> and every
  footer image of height \<open>H2\<close>, the offset being at least 1: if no offset-row block of the
  footer matches the header's trailing offset rows, and wherever a footer row equals the first
  row of that block the whole block lies within the footer and the comparison of its first and
  last rows agrees with the comparison of the whole block, then \<open>cropRow = H1\<close>, and the
  stitched image has the footer's width and the height \<open>H1 + (H2 - H1)\<close>, the difference
  being 0 where the header is the taller: the footer is cropped at row \<open>H1\<close>, so the height
  is the larger of \<open>H1\<close> and \<open>H2\<close>, not \<open>H1 + H2\<close>.
\<close>

theorem stitch_fallback_height:
  fixes H F :: "('p::zero) image"
  assumes "0 < pixel_match_offset self" and "0 < height H"
    and "B = header_last_hundred_rows (clamp_offset self (height H)) H"
    and "\<forall>i. \<not> block_at (img_rows F) B i"
    and "\<forall>k < height F. img_rows F ! k = hd B \<longrightarrow>
           k + length B \<le> height F
           \<and> (img_rows F ! (k + length B - 1) = last B \<longrightarrow> block_at (img_rows F) B k)"
  shows "find_crop_row (clamp_offset self (height H)) H F = Inr (int (height H))
       \<and> (\<exists>img. crop_and_stitch_image self H F = (Inr img, clamp_offset self (height H))
              \<and> height img = height H + (height F - height H)
              \<and> img_width img = img_width F)"
proof -
  let ?s = "clamp_offset self (height H)"
  note bf = block_facts[OF assms(1,2)]
  have ne: "B \<noteq> []" using bf(5) assms(3) by simp
  have off: "pixel_match_offset ?s = int (length B)" using bf(4) assms(3) by simp
  have "scan (img_rows F) B (pixel_match_offset ?s) 0 0 (img_rows F) = Inr 0"
  proof (rule scan_none[OF ne off])
    show "drop 0 (img_rows F) = img_rows F" by simp
    show "\<forall>k. 0 \<le> k \<and> k < length (img_rows F) \<and> img_rows F ! k = hd B \<longrightarrow>
        k + length B \<le> length (img_rows F) \<and> img_rows F ! (k + length B - 1) \<noteq> last B"
      using assms(4,5) by (auto simp: height_def)
  qed
  then have c: "find_crop_row ?s H F = Inr (int (height H))"
    using assms(3) by (simp add: find_crop_row_def)
  have "nat (int (height F) - int (height H)) = height F - height H" by simp
  then show ?thesis
    using c stitched_size[OF c]
    by (simp add: height_paste width_paste height_new_image width_new_image)
qed

theorem stitch_fallback_height_witness:
  "find_crop_row (clamp_offset default_config (height \<lparr>img_width = 1, img_rows = [ [1::nat], [2] ]\<rparr>))
      \<lparr>img_width = 1, img_rows = [ [1::nat], [2] ]\<rparr>
      \<lparr>img_width = 1, img_rows = [ [1], [7], [5] ]\<rparr> = Inr 2
   \<and> map_sum id height (fst (crop_and_stitch_image default_config
      \<lparr>img_width = 1, img_rows = [ [1::nat], [2] ]\<rparr>
      \<lparr>img_width = 1, img_rows = [ [1], [7], [5] ]\<rparr>)) = Inr 3"
proof -
  let ?H = "\<lparr>img_width = 1, img_rows = [ [1::nat], [2] ]\<rparr>"
  let ?F = "\<lparr>img_width = 1, img_rows = [ [1::nat], [7], [5] ]\<rparr>"
  have B: "[ [1::nat], [2] ] = header_last_hundred_rows (clamp_offset default_config (height ?H)) ?H"
    by (simp add: clamp_offset_def default_config_def DEFAULT_PIXEL_MATCH_OFFSET_def
        header_last_hundred_rows_def py_slice_def height_def)
  have p: "0 < pixel_match_offset default_config"
    by (simp add: default_config_def DEFAULT_PIXEL_MATCH_OFFSET_def)
  have h: "0 < height ?H" by (simp add: height_def)
  have nb: "\<forall>i. \<not> block_at (img_rows ?F) [ [1::nat], [2] ] i"
  proof
    fix i
    show "\<not> block_at (img_rows ?F) [ [1::nat], [2] ] i"
    proof
      assume b: "block_at (img_rows ?F) [ [1::nat], [2] ] i"
      from block_at_nth[OF b, of 0] block_at_nth[OF b, of 1]
      have "i + 1 < 3" "[ [1::nat], [7], [5] ] ! i = [1]" "[ [1::nat], [7], [5] ] ! (i + 1) = [2]"
        by simp_all
      then show False by (auto simp: less_Suc_eq numeral_3_eq_3)
    qed
  qed
  have ag: "\<forall>k < height ?F. img_rows ?F ! k = hd [ [1::nat], [2] ] \<longrightarrow>
           k + length [ [1::nat], [2] ] \<le> height ?F
           \<and> (img_rows ?F ! (k + length [ [1::nat], [2] ] - 1) = last [ [1::nat], [2] ]
                \<longrightarrow> block_at (img_rows ?F) [ [1::nat], [2] ] k)"
    by (auto simp: height_def less_Suc_eq numeral_3_eq_3)
  from stitch_fallback_height[OF p h B nb ag]
  show ?thesis by (auto simp: height_def)
qed

text \<open>
  Claim C3 as stated fails: with the header rows 1, 2 and the footer rows 5, 6 no block of
  the footer matches, \<open>cropRow\<close> is 2, and the stitched image has height 2, not \<open>2 + 2\<close>.
\<close>

theorem stitch_fallback_not_sum:
  "find_crop_row (clamp_offset default_config (height \<lparr>img_width = 1, img_rows = [ [1::nat], [2] ]\<rparr>))
      \<lparr>img_width = 1, img_rows = [ [1::nat], [2] ]\<rparr>
      \<lparr>img_width = 1, img_rows = [ [5], [6] ]\<rparr> = Inr 2
   \<and> \<not> block_at [ [5::nat], [6] ] [ [1], [2] ] 0
   \<and> \<not> block_at [ [5::nat], [6] ] [ [1], [2] ] 1
   \<and> map_sum id height (fst (crop_and_stitch_image default_config
      \<lparr>img_width = 1, img_rows = [ [1::nat], [2] ]\<rparr>
      \<lparr>img_width = 1, img_rows = [ [5], [6] ]\<rparr>)) = Inr 2
   \<and> (2::nat) \<noteq> height \<lparr>img_width = 1, img_rows = [ [1::nat], [2] ]\<rparr>
                 + height \<lparr>img_width = 1, img_rows = [ [5::nat], [6] ]\<rparr>"
proof -
  have c: "find_crop_row (clamp_offset default_config
             (height \<lparr>img_width = 1, img_rows = [ [1::nat], [2] ]\<rparr>))
      \<lparr>img_width = 1, img_rows = [ [1::nat], [2] ]\<rparr>
      \<lparr>img_width = 1, img_rows = [ [5], [6] ]\<rparr> = Inr 2"
    by (simp add: find_crop_row_def clamp_offset_def default_config_def DEFAULT_PIXEL_MATCH_OFFSET_def
        header_last_hundred_rows_def py_slice_def height_def)
  show ?thesis
    unfolding stitched_size[OF c]
    using c by (simp add: height_paste height_new_image block_at_def) (simp add: height_def)
qed

text \<open>
  Claim C10 (the scan can read past the end of the footer). With the header rows 1, 2 (offset
  clamped to 2) and the footer rows 9, 1 the last footer row equals the first block row, the
  inner loop reads footer row 2, and the method raises \<open>ScreenshotException\<close>. For a block
  with a first row (offset and header height at least 1): if no row among the footer's last
  offset - 1 rows equals the first block row, the method returns an image.
\<close>

theorem seam_scan_overrun:
  fixes H F :: "('p::zero) image"
  shows "fst (crop_and_stitch_image default_config
            \<lparr>img_width = 1, img_rows = [ [1::nat], [2] ]\<rparr>
            \<lparr>img_width = 1, img_rows = [ [9], [1] ]\<rparr>) = Inl ScreenshotException
   \<and> (0 < pixel_match_offset self \<and> 0 < height H
        \<and> (\<forall>k < height F.
              height F < k + nat (pixel_match_offset (clamp_offset self (height H)))
              \<longrightarrow> img_rows F ! k \<noteq> hd (header_last_hundred_rows (clamp_offset self (height H)) H))
      \<longrightarrow> (\<exists>img. fst (crop_and_stitch_image self H F) = Inr img))"
proof (intro conjI impI)
  show "fst (crop_and_stitch_image default_config
            \<lparr>img_width = 1, img_rows = [ [1::nat], [2] ]\<rparr>
            \<lparr>img_width = 1, img_rows = [ [9], [1] ]\<rparr>) = Inl ScreenshotException"
    by (simp add: crop_and_stitch_image_def find_crop_row_def clamp_offset_def default_config_def
        DEFAULT_PIXEL_MATCH_OFFSET_def header_last_hundred_rows_def py_slice_def height_def)
next
  let ?s = "clamp_offset self (height H)"
  let ?B = "header_last_hundred_rows ?s H"
  assume a: "0 < pixel_match_offset self \<and> 0 < height H
        \<and> (\<forall>k < height F. height F < k + nat (pixel_match_offset ?s)
              \<longrightarrow> img_rows F ! k \<noteq> hd ?B)"
  then have p: "0 < pixel_match_offset self" and h: "0 < height H" by simp_all
  note bf = block_facts[OF p h]
  have off: "pixel_match_offset ?s = int (length ?B)" using bf(4) by simp
  have len: "nat (pixel_match_offset ?s) = length ?B" using off by simp
  have "\<exists>c. scan (img_rows F) ?B (pixel_match_offset ?s) 0 0 (img_rows F) = Inr c"
  proof (rule scan_safe[OF bf(5) off])
    show "drop 0 (img_rows F) = img_rows F" by simp
    show "\<forall>k. 0 \<le> k \<and> k < length (img_rows F) \<and> length (img_rows F) < k + length ?B
            \<longrightarrow> img_rows F ! k \<noteq> hd ?B"
      using a len by (simp add: height_def)
  qed
  then obtain c where "find_crop_row ?s H F = Inr c"
    by (auto simp: find_crop_row_def)
  from stitched_size[OF this] show "\<exists>img. fst (crop_and_stitch_image self H F) = Inr img"
    by simp
qed

theorem seam_scan_overrun_witness:
  "0 < pixel_match_offset default_config
   \<and> 0 < height \<lparr>img_width = 1, img_rows = [ [1::nat], [2] ]\<rparr>
   \<and> [ [1::nat], [9] ] ! 0 = hd (header_last_hundred_rows (clamp_offset default_config 2)
                                \<lparr>img_width = 1, img_rows = [ [1::nat], [2] ]\<rparr>)
   \<and> [ [1::nat], [9] ] ! 1 \<noteq> hd (header_last_hundred_rows (clamp_offset default_config 2)
                                \<lparr>img_width = 1, img_rows = [ [1::nat], [2] ]\<rparr>)
   \<and> (\<exists>img. fst (crop_and_stitch_image default_config
                 \<lparr>img_width = 1, img_rows = [ [1::nat], [2] ]\<rparr>
                 \<lparr>img_width = 1, img_rows = [ [1], [9] ]\<rparr>) = Inr img)"
proof -
  let ?H = "\<lparr>img_width = 1, img_rows = [ [1::nat], [2] ]\<rparr>"
  let ?F = "\<lparr>img_width = 1, img_rows = [ [1::nat], [9] ]\<rparr>"
  have B: "header_last_hundred_rows (clamp_offset default_config 2) ?H = [ [1], [2] ]"
    "pixel_match_offset (clamp_offset default_config 2) = 2"
    by (simp_all add: clamp_offset_def default_config_def DEFAULT_PIXEL_MATCH_OFFSET_def
        header_last_hundred_rows_def py_slice_def height_def)
  have p: "0 < pixel_match_offset default_config"
    by (simp add: default_config_def DEFAULT_PIXEL_MATCH_OFFSET_def)
  have h: "0 < height ?H" "height ?H = 2" by (simp_all add: height_def)
  have pre: "\<forall>k < height ?F.
              height ?F < k + nat (pixel_match_offset (clamp_offset default_config (height ?H)))
              \<longrightarrow> img_rows ?F ! k \<noteq> hd (header_last_hundred_rows (clamp_offset default_config (height ?H)) ?H)"
    unfolding h(2) B by (auto simp: height_def less_Suc_eq numeral_2_eq_2)
  from seam_scan_overrun[of default_config ?H ?F] p h(1) pre B
  show ?thesis by simp
qed

section \<open>Claims about \<open>_get_image_data\<close> and the crop boxes\<close>

lemma and_then_Inr: "m s = (Inr a, s') \<Longrightarrow> and_then m f s = f a s'"
  by (simp add: and_then_def)

lemma and_then_Inl: "m s = (Inl e, s') \<Longrightarrow> and_then m f s = (Inl e, s')"
  by (simp add: and_then_def)

text \<open>
  Claim C9 (mobile bypass). If the capability set declares a mobile context,
  \<open>_get_image_data\<close> returns what the screenshot acquisition returned, uncropped, whatever
  \<open>viewport_only\<close> is; otherwise, for a viewport-only capture whose three browser calls
  succeed, it returns the screenshot cropped to the box
  \<open>(0, currentScroll, viewportWidth, currentScroll + viewportHeight)\<close>.
\<close>

theorem mobile_bypass:
  "(mobile sh \<longrightarrow> get_image_data sh viewport_only b = get_screenshot sh b)
   \<and> (\<not> mobile sh \<and> get_screenshot sh b = (Inr img, b1)
        \<and> get_window_current_scroll_position sh b1 = (Inr current_scroll, b2)
        \<and> get_viewport_size sh b2 = (Inr (viewport_width, viewport_height), b3)
      \<longrightarrow> get_image_data sh True b =
            (Inr (crop img (0, current_scroll, viewport_width, current_scroll + viewport_height)), b3))"
proof (intro conjI impI)
  assume m: "mobile sh"
  obtain r b' where g: "get_screenshot sh b = (r, b')" by (cases "get_screenshot sh b")
  show "get_image_data sh viewport_only b = get_screenshot sh b"
    using m g by (cases r) (simp_all add: get_image_data_def and_then_def)
next
  assume a: "\<not> mobile sh \<and> get_screenshot sh b = (Inr img, b1)
        \<and> get_window_current_scroll_position sh b1 = (Inr current_scroll, b2)
        \<and> get_viewport_size sh b2 = (Inr (viewport_width, viewport_height), b3)"
  then show "get_image_data sh True b =
            (Inr (crop img (0, current_scroll, viewport_width, current_scroll + viewport_height)), b3)"
    by (simp add: get_image_data_def and_then_def viewport_crop_box_def)
qed

theorem mobile_bypass_witness:
  "mobile ((clamping_browser 3 2 1 \<lparr>img_width = 1, img_rows = [ [1::nat], [2], [3] ]\<rparr>)
             \<lparr>desired_capabilities := [''mobile'' \<mapsto> True]\<rparr>)
   \<and> get_image_data ((clamping_browser 3 2 1 \<lparr>img_width = 1, img_rows = [ [1::nat], [2], [3] ]\<rparr>)
             \<lparr>desired_capabilities := [''mobile'' \<mapsto> True]\<rparr>) True 1
       = (Inr \<lparr>img_width = 1, img_rows = [ [1], [2], [3] ]\<rparr>, 1)
   \<and> \<not> mobile (clamping_browser 3 2 1 \<lparr>img_width = 1, img_rows = [ [1::nat], [2], [3] ]\<rparr>)
   \<and> get_image_data (clamping_browser 3 2 1 \<lparr>img_width = 1, img_rows = [ [1::nat], [2], [3] ]\<rparr>) True 1
       = (Inr (crop \<lparr>img_width = 1, img_rows = [ [1], [2], [3] ]\<rparr> (0, 1, 1, 1 + 2)), 1)
   \<and> crop \<lparr>img_width = 1, img_rows = [ [1::nat], [2], [3] ]\<rparr> (0, 1, 1, 1 + 2)
       = \<lparr>img_width = 1, img_rows = [ [2], [3] ]\<rparr>"
proof -
  let ?page = "\<lparr>img_width = 1, img_rows = [ [1::nat], [2], [3] ]\<rparr>"
  let ?sh = "clamping_browser 3 2 1 ?page"
  let ?mb = "?sh\<lparr>desired_capabilities := [''mobile'' \<mapsto> True]\<rparr>"
  have m: "mobile ?mb" by (simp add: mobile_def)
  have n: "\<not> mobile ?sh" by (simp add: mobile_def clamping_browser_def)
  have g: "get_screenshot ?sh 1 = (Inr ?page, 1)"
    "get_window_current_scroll_position ?sh 1 = (Inr 1, 1)"
    "get_viewport_size ?sh 1 = (Inr (1, 2), 1)"
    "get_screenshot ?mb 1 = (Inr ?page, 1)"
    by (simp_all add: clamping_browser_def)
  have c: "crop ?page (0, 1, 1, 1 + 2) = \<lparr>img_width = 1, img_rows = [ [2], [3] ]\<rparr>"
    by (simp add: crop_def pixel_at_def height_def upt_conv_Cons)
  from mobile_bypass[of ?mb True 1 ?page 1 1 1 1 2 1]
       mobile_bypass[of ?sh True 1 ?page 1 1 1 1 2 1] m n g c
  show ?thesis by simp
qed

text \<open>
  Claim C7 as stated fails (crop boxes clamped to the source image): with a header of 2 rows
  and a footer of 1 row that does not match, \<open>cropRow\<close> is 2 and the footer is cropped with
  the box \<open>(0, 2, 1, 1)\<close>, whose upper edge lies below the footer's last row.
\<close>

theorem footer_crop_box_out_of_bounds:
  "find_crop_row (clamp_offset default_config (height \<lparr>img_width = 1, img_rows = [ [1::nat], [2] ]\<rparr>))
      \<lparr>img_width = 1, img_rows = [ [1::nat], [2] ]\<rparr>
      \<lparr>img_width = 1, img_rows = [ [5] ]\<rparr> = Inr 2
   \<and> footer_crop_box \<lparr>img_width = 1, img_rows = [ [5::nat] ]\<rparr> 2 = (0, 2, 1, 1)
   \<and> \<not> box_in_image (footer_crop_box \<lparr>img_width = 1, img_rows = [ [5::nat] ]\<rparr> 2)
          \<lparr>img_width = 1, img_rows = [ [5::nat] ]\<rparr>"
  by (simp add: find_crop_row_def clamp_offset_def default_config_def DEFAULT_PIXEL_MATCH_OFFSET_def
        header_last_hundred_rows_def py_slice_def height_def footer_crop_box_def box_in_image_def)

text \<open>
  Claim C7, amended. The program clamps no crop box. The viewport crop of \<open>_get_image_data\<close>
  is taken with the box \<open>(0, scroll, width, scroll + height)\<close> as the browser reported the
  three numbers, and that box lies within the screenshot exactly when they are not negative,
  the viewport is no wider than the screenshot and \<open>scroll + height\<close> is at most the
  screenshot's height. The footer crop of \<open>_crop_and_stitch_image\<close> is taken with the box
  \<open>(0, cropRow, footer width, footer height)\<close>, which lies within the footer exactly when
  \<open>cropRow\<close> is at most the footer's height; that holds whenever a position was accepted, and
  in the fallback only where the header is no taller than the footer.
\<close>

theorem crop_boxes_unclamped:
  fixes H F img :: "('p::zero) image"
  shows "(\<not> mobile sh \<and> get_screenshot sh b = (Inr img, b1)
        \<and> get_window_current_scroll_position sh b1 = (Inr current_scroll, b2)
        \<and> get_viewport_size sh b2 = (Inr (viewport_width, viewport_height), b3)
      \<longrightarrow> get_image_data sh True b =
            (Inr (crop img (viewport_crop_box current_scroll viewport_width viewport_height)), b3)
          \<and> (box_in_image (viewport_crop_box current_scroll viewport_width viewport_height) img
               \<longleftrightarrow> 0 \<le> current_scroll \<and> 0 \<le> viewport_width \<and> 0 \<le> viewport_height
                   \<and> viewport_width \<le> int (img_width img)
                   \<and> current_scroll + viewport_height \<le> int (height img)))
   \<and> (find_crop_row (clamp_offset self (height H)) H F = Inr crop_row
      \<longrightarrow> fst (crop_and_stitch_image self H F) =
            Inr (paste (paste (new_image (img_width F) (height H + height (crop F (footer_crop_box F crop_row))))
                          H (0, 0))
                   (crop F (footer_crop_box F crop_row)) (0, int (height H)))
          \<and> (box_in_image (footer_crop_box F crop_row) F \<longleftrightarrow> crop_row \<le> int (height F))
          \<and> (crop_row \<le> int (height F) \<or> crop_row = int (height H)))"
proof (intro conjI impI)
  assume a: "\<not> mobile sh \<and> get_screenshot sh b = (Inr img, b1)
        \<and> get_window_current_scroll_position sh b1 = (Inr current_scroll, b2)
        \<and> get_viewport_size sh b2 = (Inr (viewport_width, viewport_height), b3)"
  then show "get_image_data sh True b =
            (Inr (crop img (viewport_crop_box current_scroll viewport_width viewport_height)), b3)"
    by (simp add: get_image_data_def and_then_def)
  show "box_in_image (viewport_crop_box current_scroll viewport_width viewport_height) img
               \<longleftrightarrow> 0 \<le> current_scroll \<and> 0 \<le> viewport_width \<and> 0 \<le> viewport_height
                   \<and> viewport_width \<le> int (img_width img)
                   \<and> current_scroll + viewport_height \<le> int (height img)"
    by (auto simp: box_in_image_def viewport_crop_box_def)
next
  assume c: "find_crop_row (clamp_offset self (height H)) H F = Inr crop_row"
  note cases = find_crop_row_cases[OF c]
  show "fst (crop_and_stitch_image self H F) =
            Inr (paste (paste (new_image (img_width F) (height H + height (crop F (footer_crop_box F crop_row))))
                          H (0, 0))
                   (crop F (footer_crop_box F crop_row)) (0, int (height H)))"
    using stitched_size[OF c] by (simp add: footer_crop_box_def height_crop)
  show "box_in_image (footer_crop_box F crop_row) F \<longleftrightarrow> crop_row \<le> int (height F)"
    using cases by (auto simp: box_in_image_def footer_crop_box_def)
  show "crop_row \<le> int (height F) \<or> crop_row = int (height H)"
    using cases by auto
qed

theorem crop_boxes_unclamped_witness:
  "get_image_data (clamping_browser 3 2 1 \<lparr>img_width = 1, img_rows = [ [1::nat], [2], [3] ]\<rparr>) True 1
     = (Inr (crop \<lparr>img_width = 1, img_rows = [ [1], [2], [3] ]\<rparr> (viewport_crop_box 1 1 2)), 1)
   \<and> box_in_image (viewport_crop_box 1 1 2) \<lparr>img_width = 1, img_rows = [ [1::nat], [2], [3] ]\<rparr>
   \<and> find_crop_row (clamp_offset default_config (height \<lparr>img_width = 1, img_rows = [ [1::nat], [2] ]\<rparr>))
        \<lparr>img_width = 1, img_rows = [ [1::nat], [2] ]\<rparr>
        \<lparr>img_width = 1, img_rows = [ [5], [6], [7] ]\<rparr> = Inr 2
   \<and> box_in_image (footer_crop_box \<lparr>img_width = 1, img_rows = [ [5::nat], [6], [7] ]\<rparr> 2)
        \<lparr>img_width = 1, img_rows = [ [5::nat], [6], [7] ]\<rparr>"
proof -
  let ?page = "\<lparr>img_width = 1, img_rows = [ [1::nat], [2], [3] ]\<rparr>"
  let ?sh = "clamping_browser 3 2 1 ?page"
  let ?H = "\<lparr>img_width = 1, img_rows = [ [1::nat], [2] ]\<rparr>"
  let ?F = "\<lparr>img_width = 1, img_rows = [ [5::nat], [6], [7] ]\<rparr>"
  have n: "\<not> mobile ?sh" by (simp add: mobile_def clamping_browser_def)
  have g: "get_screenshot ?sh 1 = (Inr ?page, 1)"
    "get_window_current_scroll_position ?sh 1 = (Inr 1, 1)"
    "get_viewport_size ?sh 1 = (Inr (1, 2), 1)"
    by (simp_all add: clamping_browser_def)
  have c: "find_crop_row (clamp_offset default_config (height ?H)) ?H ?F = Inr 2"
    by (simp add: find_crop_row_def clamp_offset_def default_config_def DEFAULT_PIXEL_MATCH_OFFSET_def
        header_last_hundred_rows_def py_slice_def height_def)
  have hs: "height ?page = 3" "height ?F = 3" by (simp_all add: height_def)
  from crop_boxes_unclamped[of ?sh 1 ?page 1 1 1 1 2 1 default_config ?H ?F 2] n g c hs
  show ?thesis by simp
qed

section \<open>Claims about \<open>_hide_elements\<close> and \<open>_show_elements\<close>\<close>

lemma hide_elements_pass:
  "all_pass hide_tolerated (hide_element sh) css_selectors b \<Longrightarrow>
   hide_elements sh css_selectors b = (Inr (), attempts (hide_element sh) css_selectors b)"
proof (induction css_selectors arbitrary: b)
  case Nil
  then show ?case by simp
next
  case (Cons s ss)
  obtain r b' where t: "hide_element sh s b = (r, b')" by (cases "hide_element sh s b")
  with Cons.prems have rest: "all_pass hide_tolerated (hide_element sh) ss b'"
    and ok: "case r of Inl e \<Rightarrow> hide_tolerated e | Inr u \<Rightarrow> True" by simp_all
  from Cons.IH[OF rest] t ok show ?case
    by (cases r) (auto simp: hide_tolerated_def)
qed

lemma hide_elements_abort:
  "all_pass hide_tolerated (hide_element sh) xs b \<Longrightarrow>
   hide_element sh s (attempts (hide_element sh) xs b) = (Inl e, b') \<Longrightarrow>
   \<not> hide_tolerated e \<Longrightarrow>
   hide_elements sh (xs @ s # ys) b = (Inl e, b')"
proof (induction xs arbitrary: b)
  case Nil
  then show ?case by (simp add: hide_tolerated_def)
next
  case (Cons x xs)
  obtain r b1 where t: "hide_element sh x b = (r, b1)" by (cases "hide_element sh x b")
  with Cons.prems have rest: "all_pass hide_tolerated (hide_element sh) xs b1"
    and ok: "case r of Inl e \<Rightarrow> hide_tolerated e | Inr u \<Rightarrow> True"
    and f: "hide_element sh s (attempts (hide_element sh) xs b1) = (Inl e, b')" by simp_all
  from Cons.IH[OF rest f Cons.prems(3)] t ok show ?case
    by (cases r) (auto simp: hide_tolerated_def)
qed

lemma show_elements_pass:
  "all_pass show_tolerated (show_element sh) css_selectors b \<Longrightarrow>
   show_elements sh css_selectors b = (Inr (), attempts (show_element sh) css_selectors b)"
proof (induction css_selectors arbitrary: b)
  case Nil
  then show ?case by simp
next
  case (Cons s ss)
  obtain r b' where t: "show_element sh s b = (r, b')" by (cases "show_element sh s b")
  with Cons.prems have rest: "all_pass show_tolerated (show_element sh) ss b'"
    and ok: "case r of Inl e \<Rightarrow> show_tolerated e | Inr u \<Rightarrow> True" by simp_all
  from Cons.IH[OF rest] t ok show ?case
    by (cases r) (auto simp: show_tolerated_def)
qed

lemma show_elements_abort:
  "all_pass show_tolerated (show_element sh) xs b \<Longrightarrow>
   show_element sh s (attempts (show_element sh) xs b) = (Inl e, b') \<Longrightarrow>
   \<not> show_tolerated e \<Longrightarrow>
   show_elements sh (xs @ s # ys) b = (Inl e, b')"
proof (induction xs arbitrary: b)
  case Nil
  then show ?case by (simp add: show_tolerated_def)
next
  case (Cons x xs)
  obtain r b1 where t: "show_element sh x b = (r, b1)" by (cases "show_element sh x b")
  with Cons.prems have rest: "all_pass show_tolerated (show_element sh) xs b1"
    and ok: "case r of Inl e \<Rightarrow> show_tolerated e | Inr u \<Rightarrow> True"
    and f: "show_element sh s (attempts (show_element sh) xs b1) = (Inl e, b')" by simp_all
  from Cons.IH[OF rest f Cons.prems(3)] t ok show ?case
    by (cases r) (auto simp: show_tolerated_def)
qed

text \<open>
  Claim C8 (tolerant visibility sweep). For every selector list, the hide sweep and the show
  sweep attempt the selectors in order. A toggle that fails with a tolerated failure (the
  element does not exist, or, for the hide sweep, is already not visible) is passed over: if
  every toggle of the list succeeds or fails so, the sweep returns normally and the browser
  is the one left by attempting every selector. Any other failure is raised at once: where the
  selectors \<open>xs\<close> pass and the toggle of the next selector \<open>s\<close> fails otherwise, the sweep
  raises that failure, the browser is the one that toggle left, and the selectors \<open>ys\<close> after
  \<open>s\<close> play no part.
\<close>

theorem tolerant_visibility_sweep:
  "(all_pass hide_tolerated (hide_element sh) css_selectors b \<longrightarrow>
      hide_elements sh css_selectors b = (Inr (), attempts (hide_element sh) css_selectors b))
   \<and> (all_pass hide_tolerated (hide_element sh) xs b
        \<and> hide_element sh s (attempts (hide_element sh) xs b) = (Inl e, b') \<and> \<not> hide_tolerated e
      \<longrightarrow> hide_elements sh (xs @ s # ys) b = (Inl e, b'))
   \<and> (all_pass show_tolerated (show_element sh) css_selectors b \<longrightarrow>
      show_elements sh css_selectors b = (Inr (), attempts (show_element sh) css_selectors b))
   \<and> (all_pass show_tolerated (show_element sh) xs b
        \<and> show_element sh s (attempts (show_element sh) xs b) = (Inl e, b') \<and> \<not> show_tolerated e
      \<longrightarrow> show_elements sh (xs @ s # ys) b = (Inl e, b'))"
  using hide_elements_pass[of sh css_selectors b] hide_elements_abort[of sh xs b s e b' ys]
    show_elements_pass[of sh css_selectors b] show_elements_abort[of sh xs b s e b' ys]
  by blast

theorem tolerant_visibility_sweep_witness:
  "hide_elements (recording_browser [''missing'' \<mapsto> ElementError, ''hidden'' \<mapsto> ElementNotVisibleError,
                                      ''broken'' \<mapsto> OtherException])
        [''a'', ''missing'', ''hidden''] [] = (Inr (), [''a'', ''missing'', ''hidden''])
   \<and> hide_elements (recording_browser [''missing'' \<mapsto> ElementError, ''hidden'' \<mapsto> ElementNotVisibleError,
                                      ''broken'' \<mapsto> OtherException])
        ([''a'', ''missing''] @ ''broken'' # [''b'']) [] = (Inl OtherException, [''a'', ''missing'', ''broken''])
   \<and> show_elements (recording_browser [''missing'' \<mapsto> ElementError, ''hidden'' \<mapsto> ElementNotVisibleError,
                                      ''broken'' \<mapsto> OtherException])
        [''a'', ''missing'', ''b''] [] = (Inr (), [''a'', ''missing'', ''b''])
   \<and> show_elements (recording_browser [''missing'' \<mapsto> ElementError, ''hidden'' \<mapsto> ElementNotVisibleError,
                                      ''broken'' \<mapsto> OtherException])
        ([''a'', ''missing''] @ ''hidden'' # [''b'']) [] = (Inl ElementNotVisibleError, [''a'', ''missing'', ''hidden''])"
proof -
  let ?sh = "recording_browser [''missing'' \<mapsto> ElementError, ''hidden'' \<mapsto> ElementNotVisibleError,
                                ''broken'' \<mapsto> OtherException]"
  have h: "hide_element ?sh = (\<lambda>css b. (case [''missing'' \<mapsto> ElementError, ''hidden'' \<mapsto> ElementNotVisibleError,
                                ''broken'' \<mapsto> OtherException] css of None \<Rightarrow> Inr () | Some e \<Rightarrow> Inl e, b @ [css]))"
    and w: "show_element ?sh = (\<lambda>css b. (case [''missing'' \<mapsto> ElementError, ''hidden'' \<mapsto> ElementNotVisibleError,
                                ''broken'' \<mapsto> OtherException] css of None \<Rightarrow> Inr () | Some e \<Rightarrow> Inl e, b @ [css]))"
    by (simp_all add: recording_browser_def)
  have p1: "all_pass hide_tolerated (hide_element ?sh) [''a'', ''missing'', ''hidden''] []"
    and a1: "attempts (hide_element ?sh) [''a'', ''missing'', ''hidden''] [] = [''a'', ''missing'', ''hidden'']"
    and p2: "all_pass hide_tolerated (hide_element ?sh) [''a'', ''missing''] []"
    and f2: "hide_element ?sh ''broken'' (attempts (hide_element ?sh) [''a'', ''missing''] [])
               = (Inl OtherException, [''a'', ''missing'', ''broken''])"
    and n2: "\<not> hide_tolerated OtherException"
    unfolding h by (simp_all add: hide_tolerated_def)
  have p3: "all_pass show_tolerated (show_element ?sh) [''a'', ''missing'', ''b''] []"
    and a3: "attempts (show_element ?sh) [''a'', ''missing'', ''b''] [] = [''a'', ''missing'', ''b'']"
    and p4: "all_pass show_tolerated (show_element ?sh) [''a'', ''missing''] []"
    and f4: "show_element ?sh ''hidden'' (attempts (show_element ?sh) [''a'', ''missing''] [])
               = (Inl ElementNotVisibleError, [''a'', ''missing'', ''hidden''])"
    and n4: "\<not> show_tolerated ElementNotVisibleError"
    unfolding w by (simp_all add: show_tolerated_def)
  from tolerant_visibility_sweep[of ?sh "[''a'', ''missing'', ''hidden'']" "[]" "[''a'', ''missing'']"
          "''broken''" OtherException "[''a'', ''missing'', ''broken'']" "[''b'']"] p1 a1 p2 f2 n2
  have hide: "hide_elements ?sh [''a'', ''missing'', ''hidden''] [] = (Inr (), [''a'', ''missing'', ''hidden''])"
     "hide_elements ?sh ([''a'', ''missing''] @ ''broken'' # [''b'']) [] = (Inl OtherException, [''a'', ''missing'', ''broken''])"
    by simp_all
  from tolerant_visibility_sweep[of ?sh "[''a'', ''missing'', ''b'']" "[]" "[''a'', ''missing'']"
          "''hidden''" ElementNotVisibleError "[''a'', ''missing'', ''hidden'']" "[''b'']"] p3 a3 p4 f4 n4
  have shw: "show_elements ?sh [''a'', ''missing'', ''b''] [] = (Inr (), [''a'', ''missing'', ''b''])"
     "show_elements ?sh ([''a'', ''missing''] @ ''hidden'' # [''b'']) [] = (Inl ElementNotVisibleError, [''a'', ''missing'', ''hidden''])"
    by simp_all
  from hide shw show ?thesis by simp
qed

section \<open>Claims about \<open>_capture_paginated_page\<close>\<close>

lemma capture_single_viewport_clamping:
  "capture_single_viewport (clamping_browser Hp V W page) self b =
     (Inr (create_image_file self (crop page (viewport_crop_box b W V))), b)"
  by (simp add: capture_single_viewport_def get_image_data_def and_then_def mobile_def
        clamping_browser_def)

lemma clamped_target:
  fixes cur P V Hp :: int
  assumes "0 \<le> cur" "P < V"
  shows "max 0 (min (cur + V - P) (Hp - V)) = min (cur + V - P) (max 0 (Hp - V))"
  using assms by auto

lemma paginated_loop_clamping_step:
  assumes "0 \<le> cur" "P < V"
  shows "paginated_loop (clamping_browser Hp V W page) self V P cur imgs b =
     (if min (cur + V - P) (max 0 (Hp - V)) = cur
      then Some (Inr (imgs @ [create_image_file self (crop page (viewport_crop_box b W V))]),
                 min (cur + V - P) (max 0 (Hp - V)))
      else paginated_loop (clamping_browser Hp V W page) self V P
             (min (cur + V - P) (max 0 (Hp - V)))
             (imgs @ [create_image_file self (crop page (viewport_crop_box b W V))])
             (min (cur + V - P) (max 0 (Hp - V))))"
proof -
  have raw: "paginated_loop (clamping_browser Hp V W page) self V P cur imgs b =
     (if max 0 (min (cur + V - P) (Hp - V)) = cur
      then Some (Inr (imgs @ [create_image_file self (crop page (viewport_crop_box b W V))]),
                 max 0 (min (cur + V - P) (Hp - V)))
      else paginated_loop (clamping_browser Hp V W page) self V P
             (max 0 (min (cur + V - P) (Hp - V)))
             (imgs @ [create_image_file self (crop page (viewport_crop_box b W V))])
             (max 0 (min (cur + V - P) (Hp - V))))"
    by (subst paginated_loop.simps)
       (simp add: capture_single_viewport_clamping, simp add: clamping_browser_def)
  show ?thesis using raw unfolding clamped_target[OF assms] .
qed

lemma div_step_far:
  fixes s d :: int
  assumes "0 < s" "s \<le> d"
  shows "nat ((d + s - 1) div s) = Suc (nat ((d - s + s - 1) div s))"
proof -
  have "(d + s - 1) div s = (d - 1) div s + 1"
    using assms by (metis add.commute add_diff_eq div_add_self1 less_irrefl)
  moreover have "0 \<le> (d - 1) div s" using assms by (simp add: pos_imp_zdiv_nonneg_iff)
  ultimately show ?thesis by (simp add: nat_add_distrib)
qed

lemma div_step_near:
  fixes s d :: int
  assumes "0 < d" "d < s"
  shows "nat ((d + s - 1) div s) = Suc 0"
proof -
  have "(d + s - 1) div s = (d - 1) div s + 1"
    using assms by (metis add.commute add_diff_eq div_add_self1 less_irrefl less_trans)
  moreover have "(d - 1) div s = 0" using assms by (simp add: div_pos_pos_trivial)
  ultimately show ?thesis by simp
qed

lemma paginated_loop_clamping:
  assumes "P < V" "0 \<le> cur" "cur \<le> max 0 (Hp - V)"
  shows "\<exists>fs. paginated_loop (clamping_browser Hp V W page) self V P cur imgs b
               = Some (Inr (imgs @ fs), max 0 (Hp - V))
             \<and> length fs = Suc (nat ((max 0 (Hp - V) - cur + (V - P) - 1) div (V - P)))"
  using assms(2,3)
proof (induction "nat (max 0 (Hp - V) - cur)" arbitrary: cur imgs b rule: less_induct)
  case less
  let ?s = "V - P"
  let ?M = "max 0 (Hp - V)"
  let ?new = "min (cur + V - P) ?M"
  let ?f = "create_image_file self (crop page (viewport_crop_box b W V))"
  have s: "0 < ?s" using assms(1) by simp
  note step = paginated_loop_clamping_step[OF less.prems(1) assms(1), of Hp W page self imgs b]
  show ?case
  proof (cases "cur = ?M")
    case True
    then have e: "?new = cur" using s by simp
    have "(?s - 1) div ?s = 0" using s by (simp add: div_pos_pos_trivial)
    then have "length [?f] = Suc (nat ((?M - cur + ?s - 1) div ?s))" using True by simp
    moreover have "paginated_loop (clamping_browser Hp V W page) self V P cur imgs b
                  = Some (Inr (imgs @ [?f]), ?M)"
      using step e True by simp
    ultimately show ?thesis by blast
  next
    case False
    then have lt: "cur < ?M" using less.prems by simp
    then have ne: "?new \<noteq> cur" using s by simp
    have le: "?new \<le> ?M" by simp
    have nn: "0 \<le> ?new" using less.prems(1) s by simp
    have dec: "nat (?M - ?new) < nat (?M - cur)" using lt s by auto
    from less.hyps[OF dec nn le, of "imgs @ [?f]" ?new]
    obtain fs where fs: "paginated_loop (clamping_browser Hp V W page) self V P ?new (imgs @ [?f]) ?new
               = Some (Inr ((imgs @ [?f]) @ fs), ?M)"
             "length fs = Suc (nat ((?M - ?new + ?s - 1) div ?s))" by blast
    have run: "paginated_loop (clamping_browser Hp V W page) self V P cur imgs b
                  = Some (Inr (imgs @ (?f # fs)), ?M)"
      using step ne fs(1) by simp
    have cnt: "nat ((?M - cur + ?s - 1) div ?s) = Suc (nat ((?M - ?new + ?s - 1) div ?s))"
    proof (cases "cur + ?s \<le> ?M")
      case True
      then have n: "?new = cur + ?s" by simp
      have "?M - ?new = ?M - cur - ?s" unfolding n by simp
      then show ?thesis using div_step_far[OF s, of "?M - cur"] True by simp
    next
      case False
      then have n: "?new = ?M" by simp
      have z: "(?s - 1) div ?s = 0" using s by (simp add: div_pos_pos_trivial)
      have "nat ((?M - cur + ?s - 1) div ?s) = Suc 0"
        using div_step_near[of "?M - cur" ?s] lt False by simp
      then show ?thesis unfolding n using z by simp
    qed
    have "length (?f # fs) = Suc (nat ((?M - cur + ?s - 1) div ?s))"
      using fs(2) cnt by simp
    with run show ?thesis by blast
  qed
qed

lemma ceiling_div_int:
  fixes a s :: int
  assumes "0 < s"
  shows "\<lceil>real_of_int a / real_of_int s\<rceil> = (a + s - 1) div s"
proof -
  let ?q = "(a + s - 1) div s"
  let ?r = "(a + s - 1) mod s"
  have r: "0 \<le> ?r" "?r < s" using assms by simp_all
  have "a + s - 1 = s * ?q + ?r" by simp
  then have "- a = s * (- ?q) + (s - 1 - ?r)" by (simp add: algebra_simps)
  moreover have "0 \<le> s - 1 - ?r" "s - 1 - ?r < s" using r by simp_all
  ultimately have "(- a) div s = - ?q" by (rule int_div_pos_eq)
  then show ?thesis by (simp add: ceiling_divide_eq_div)
qed

lemma capture_paginated_page_clamping:
  fixes page :: "('p::zero) image"
  assumes "P < V" "padding_or padding (scroll_padding self) = P"
  shows "\<exists>fs. capture_paginated_page (clamping_browser Hp V W page) self padding b
               = Some (Inr fs, max 0 (Hp - V))
             \<and> int (length fs) = \<lceil>real_of_int (max 0 (Hp - V)) / real_of_int (V - P)\<rceil> + 1"
proof -
  let ?M = "max 0 (Hp - V)"
  have s: "0 < V - P" using assms(1) by simp
  have z: "max 0 (min 0 (Hp - V)) = 0" by simp
  from paginated_loop_clamping[OF assms(1), of 0 Hp W page self "[]" 0]
  obtain fs where fs: "paginated_loop (clamping_browser Hp V W page) self V P 0 [] 0
               = Some (Inr fs, ?M)"
      "length fs = Suc (nat ((?M + (V - P) - 1) div (V - P)))" by auto
  have nn: "0 \<le> (?M + (V - P) - 1) div (V - P)"
    using s by (simp add: pos_imp_zdiv_nonneg_iff)
  have "capture_paginated_page (clamping_browser Hp V W page) self padding b
          = paginated_loop (clamping_browser Hp V W page) self V P 0 [] 0"
    using assms(2) z by (simp add: capture_paginated_page_def clamping_browser_def)
  moreover have "int (length fs) = \<lceil>real_of_int ?M / real_of_int (V - P)\<rceil> + 1"
    unfolding ceiling_div_int[OF s] fs(2) using nn by simp
  ultimately show ?thesis using fs(1) by auto
qed

lemma pagination_bound:
  fixes Hp V P :: int
  assumes "0 \<le> P" "P < V" "0 < Hp"
  shows "\<lceil>real_of_int (max 0 (Hp - V)) / real_of_int (V - P)\<rceil> + 1
           \<le> \<lceil>real_of_int Hp / real_of_int (V - P)\<rceil>"
proof (cases "V \<le> Hp")
  case True
  have s: "0 < V - P" using assms by simp
  have m: "max 0 (Hp - V) = Hp - V" using True by simp
  have "(Hp - V + (V - P) - 1) div (V - P) + 1 = (Hp - V + (V - P) + (V - P) - 1) div (V - P)"
    using s by (metis add.commute add_diff_eq div_add_self1 less_irrefl)
  also have "\<dots> \<le> (Hp + (V - P) - 1) div (V - P)"
    using s assms(1) by (intro zdiv_mono1) simp_all
  finally show ?thesis unfolding m ceiling_div_int[OF s] .
next
  case False
  have s: "0 < V - P" using assms by simp
  have m: "max 0 (Hp - V) = 0" using False by simp
  have "(V - P) div (V - P) \<le> (Hp + (V - P) - 1) div (V - P)"
    using s assms(3) by (intro zdiv_mono1) simp_all
  then have "1 \<le> (Hp + (V - P) - 1) div (V - P)" using s by simp
  moreover have "(0 + (V - P) - 1) div (V - P) = 0" using s by (simp add: div_pos_pos_trivial)
  ultimately show ?thesis unfolding m ceiling_div_int[OF s] by simp
qed

text \<open>
  Claim C5, amended (pagination termination). With any browser, an iteration of the loop
  whose capture, scroll and position read succeed ends the loop exactly when the position read
  equals the position before the scroll, and goes on from the new position otherwise. With
  the browser that clamps scroll positions to at most \<open>Hp - V\<close> (and at least 0), for every
  page height \<open>Hp > 0\<close>, viewport height \<open>V\<close> and padding \<open>P\<close> with \<open>0 \<le> P < V\<close>, the
  paginated capture returns: it ends with the browser at the last scroll position
  \<open>max 0 (Hp - V)\<close> and produces \<open>ceil(max 0 (Hp - V) / (V - P)) + 1\<close> images, which is at
  most \<open>ceil(Hp / (V - P))\<close>. For \<open>Hp = 3000\<close>, \<open>V = 800\<close>, \<open>P = 100\<close> that is 5 images
  (the positions 0, 700, 1400, 2100 and 2200), as the example below the theorem computes.
\<close>

theorem pagination_terminates:
  fixes page :: "('p::zero) image"
  shows "(capture_single_viewport sh self0 b0 = (Inr f, b1)
          \<and> scroll_window_to_position sh (cur + vh - pad) b1 = (Inr u, b2)
          \<and> get_window_current_scroll_position sh b2 = (Inr new, b3)
        \<longrightarrow> paginated_loop sh self0 vh pad cur imgs b0 =
              (if new = cur then Some (Inr (imgs @ [f]), b3)
               else paginated_loop sh self0 vh pad new (imgs @ [f]) b3))
   \<and> (0 < Hp \<and> 0 \<le> P \<and> P < V \<and> padding_or padding (scroll_padding self) = P
        \<longrightarrow> (\<exists>fs. capture_paginated_page (clamping_browser Hp V W page) self padding b
                     = Some (Inr fs, max 0 (Hp - V))
                \<and> int (length fs)
                    = \<lceil>real_of_int (max 0 (Hp - V)) / real_of_int (V - P)\<rceil> + 1
                \<and> int (length fs) \<le> \<lceil>real_of_int Hp / real_of_int (V - P)\<rceil>))"
proof (intro conjI impI)
  assume "capture_single_viewport sh self0 b0 = (Inr f, b1)
          \<and> scroll_window_to_position sh (cur + vh - pad) b1 = (Inr u, b2)
          \<and> get_window_current_scroll_position sh b2 = (Inr new, b3)"
  then show "paginated_loop sh self0 vh pad cur imgs b0 =
              (if new = cur then Some (Inr (imgs @ [f]), b3)
               else paginated_loop sh self0 vh pad new (imgs @ [f]) b3)"
    by (subst paginated_loop.simps) simp
next
  assume a: "0 < Hp \<and> 0 \<le> P \<and> P < V \<and> padding_or padding (scroll_padding self) = P"
  then have p: "0 < Hp" "0 \<le> P" "P < V" "padding_or padding (scroll_padding self) = P"
    by simp_all
  from capture_paginated_page_clamping[OF p(3,4), of Hp W page b]
  obtain fs where fs: "capture_paginated_page (clamping_browser Hp V W page) self padding b
               = Some (Inr fs, max 0 (Hp - V))"
      "int (length fs) = \<lceil>real_of_int (max 0 (Hp - V)) / real_of_int (V - P)\<rceil> + 1" by blast
  have "int (length fs) \<le> \<lceil>real_of_int Hp / real_of_int (V - P)\<rceil>"
    using fs(2) pagination_bound[OF p(2,3,1)] by simp
  with fs show "\<exists>fs. capture_paginated_page (clamping_browser Hp V W page) self padding b
                     = Some (Inr fs, max 0 (Hp - V))
                \<and> int (length fs)
                    = \<lceil>real_of_int (max 0 (Hp - V)) / real_of_int (V - P)\<rceil> + 1
                \<and> int (length fs) \<le> \<lceil>real_of_int Hp / real_of_int (V - P)\<rceil>"
    by blast
qed

theorem pagination_terminates_witness:
  "capture_single_viewport (clamping_browser 3000 800 1000 (new_image 1000 3000 :: nat image))
       default_config 0
     = (Inr (create_image_file default_config
               (crop (new_image 1000 3000) (viewport_crop_box 0 1000 800))), 0)
   \<and> scroll_window_to_position (clamping_browser 3000 800 1000 (new_image 1000 3000 :: nat image))
       (0 + 800 - 100) 0 = (Inr (), 700)
   \<and> get_window_current_scroll_position
       (clamping_browser 3000 800 1000 (new_image 1000 3000 :: nat image)) 700 = (Inr 700, 700)
   \<and> padding_or None (scroll_padding default_config) = 100
   \<and> image_count (capture_paginated_page
        (clamping_browser 3000 800 1000 (new_image 1000 3000 :: nat image)) default_config None 0)
      = Some 5"
proof -
  let ?page = "new_image 1000 3000 :: nat image"
  let ?sh = "clamping_browser 3000 800 1000 ?page"
  let ?f = "create_image_file default_config (crop ?page (viewport_crop_box 0 1000 800))"
  have c: "capture_single_viewport ?sh default_config 0 = (Inr ?f, 0)"
    by (rule capture_single_viewport_clamping)
  have sc: "scroll_window_to_position ?sh (0 + 800 - 100) 0 = (Inr (), 700)"
    and rd: "get_window_current_scroll_position ?sh 700 = (Inr 700, 700)"
    by (simp_all add: clamping_browser_def)
  have pd: "padding_or None (scroll_padding default_config) = 100"
    by (simp add: default_config_def DEFAULT_SCROLL_PADDING_def)
  have hyp: "(0::int) < 3000 \<and> (0::int) \<le> 100 \<and> (100::int) < 800
             \<and> padding_or None (scroll_padding default_config) = 100"
    using pd by simp
  from pagination_terminates[of ?sh default_config 0 ?f 0 0 800 100 "()" 700 700 700 "[]"
          3000 100 800 None default_config 1000 ?page 0] c sc rd hyp
  obtain fs where fs: "capture_paginated_page ?sh default_config None 0
                         = Some (Inr fs, max 0 (3000 - 800))"
     "int (length fs) = \<lceil>real_of_int (max 0 (3000 - 800)) / real_of_int (800 - 100)\<rceil> + 1"
    by blast
  have "length fs = 5" using fs(2) by simp
  then have "image_count (capture_paginated_page ?sh default_config None 0) = Some 5"
    using fs(1) by (simp add: image_count_def)
  with c sc rd pd show ?thesis by simp
qed

text \<open>
  Claim C5 as stated fails in its example: for \<open>Hp = 3000\<close>, \<open>V = 800\<close>, \<open>P = 100\<close> the
  paginated capture returns 5 images, not 4.
\<close>

theorem pagination_example_count_not_four:
  "image_count (capture_paginated_page
        (clamping_browser 3000 800 1000 (new_image 1000 3000 :: nat image)) default_config None 0)
      = Some 5
   \<and> image_count (capture_paginated_page
        (clamping_browser 3000 800 1000 (new_image 1000 3000 :: nat image)) default_config None 0)
      \<noteq> Some 4"
proof -
  let ?sh = "clamping_browser 3000 800 1000 (new_image 1000 3000 :: nat image)"
  have pd: "padding_or None (scroll_padding default_config) = 100"
    by (simp add: default_config_def DEFAULT_SCROLL_PADDING_def)
  from capture_paginated_page_clamping[of 100 800 None default_config 3000 1000
         "new_image 1000 3000 :: nat image" 0] pd
  obtain fs where fs: "capture_paginated_page ?sh default_config None 0
                         = Some (Inr fs, max 0 (3000 - 800))"
     "int (length fs) = \<lceil>real_of_int (max 0 (3000 - 800)) / real_of_int (800 - 100)\<rceil> + 1"
    by auto
  have "length fs = 5" using fs(2) by simp
  then show ?thesis using fs(1) by (simp add: image_count_def)
qed

text \<open>
  A page shorter than the viewport stays at scroll position 0 and gives one image, within the
  bound: here a page of height 2 in a viewport of height 4, with no padding. Only a page of
  height 0 is outside the bound, which is 0 there, since the loop always captures once.
\<close>

lemma pagination_short_page:
  "image_count (capture_paginated_page (clamping_browser 2 4 1 (new_image 1 2 :: nat image))
      (default_config\<lparr>scroll_padding := 0\<rparr>) None 0) = Some 1
   \<and> \<lceil>real_of_int 2 / real_of_int (4 - 0)\<rceil> = 1
   \<and> image_count (capture_paginated_page (clamping_browser 0 4 1 (new_image 1 0 :: nat image))
      (default_config\<lparr>scroll_padding := 0\<rparr>) None 0) = Some 1
   \<and> \<lceil>real_of_int 0 / real_of_int (4 - 0)\<rceil> = 0"
proof -
  have pd: "padding_or None (scroll_padding (default_config\<lparr>scroll_padding := 0\<rparr>)) = 0"
    by simp
  from capture_paginated_page_clamping[of 0 4 None "default_config\<lparr>scroll_padding := 0\<rparr>" 2 1
         "new_image 1 2 :: nat image" 0] pd
  obtain fs where fs: "capture_paginated_page (clamping_browser 2 4 1 (new_image 1 2 :: nat image))
        (default_config\<lparr>scroll_padding := 0\<rparr>) None 0 = Some (Inr fs, max 0 (2 - 4))"
     "int (length fs) = \<lceil>real_of_int (max 0 (2 - 4)) / real_of_int (4 - 0)\<rceil> + 1"
    by auto
  from capture_paginated_page_clamping[of 0 4 None "default_config\<lparr>scroll_padding := 0\<rparr>" 0 1
         "new_image 1 0 :: nat image" 0] pd
  obtain gs where gs: "capture_paginated_page (clamping_browser 0 4 1 (new_image 1 0 :: nat image))
        (default_config\<lparr>scroll_padding := 0\<rparr>) None 0 = Some (Inr gs, max 0 (0 - 4))"
     "int (length gs) = \<lceil>real_of_int (max 0 (0 - 4)) / real_of_int (4 - 0)\<rceil> + 1"
    by auto
  have "length fs = 1" "length gs = 1" using fs(2) gs(2) by simp_all
  moreover have "\<lceil>real_of_int 2 / real_of_int (4 - 0)\<rceil> = 1"
    using ceiling_div_int[of "4 - 0" 2] by simp
  ultimately show ?thesis using fs(1) gs(1) by (simp add: image_count_def)
qed

section \<open>Claims about the instance's configuration\<close>

lemma same_but_offset_refl: "same_but_offset self self"
  by (simp add: same_but_offset_def)

lemma same_but_offset_trans:
  "same_but_offset a b \<Longrightarrow> same_but_offset b c \<Longrightarrow> same_but_offset a c"
  by (simp add: same_but_offset_def)

lemma clamp_offset_min:
  "clamp_offset self h = self\<lparr>pixel_match_offset := min (pixel_match_offset self) (int h)\<rparr>"
  by (simp add: clamp_offset_def min_def)

lemma crop_and_stitch_image_config:
  "snd (crop_and_stitch_image self H F) = clamp_offset self (height H)"
  by (simp add: crop_and_stitch_image_def Let_def split: sum.splits)

lemma on_browser_frame: "snd (snd (on_browser m s)) = snd s"
  by (simp add: on_browser_def split: prod.splits)

lemma stitch_frame: "same_but_offset (snd s) (snd (snd (stitch header_image footer_image s)))"
proof -
  have "snd (snd (stitch header_image footer_image s)) = clamp_offset (snd s) (height header_image)"
    using crop_and_stitch_image_config[of "snd s" header_image footer_image]
    by (cases "crop_and_stitch_image (snd s) header_image footer_image") (simp add: stitch_def)
  then show ?thesis by (simp add: clamp_offset_def same_but_offset_def)
qed

lemma save_file_frame: "snd (snd (save_file img s)) = snd s"
  by (simp add: save_file_def)

lemma and_then_frame:
  assumes "\<And>s. same_but_offset (snd s) (snd (snd (m s)))"
    and "\<And>a s. same_but_offset (snd s) (snd (snd (f a s)))"
  shows "same_but_offset (snd s) (snd (snd (and_then m f s)))"
proof -
  obtain r s1 where m: "m s = (r, s1)" by (cases "m s")
  have 1: "same_but_offset (snd s) (snd s1)" using assms(1)[of s] m by simp
  show ?thesis
  proof (cases r)
    case (Inl e)
    then show ?thesis using m 1 by (simp add: and_then_def)
  next
    case (Inr a)
    then have "and_then m f s = f a s1" using m by (simp add: and_then_def)
    then show ?thesis using same_but_offset_trans[OF 1 assms(2)[of s1 a] ] by simp
  qed
qed

lemma on_browser_same: "same_but_offset (snd s) (snd (snd (on_browser m s)))"
  by (simp add: on_browser_frame same_but_offset_refl)

lemma save_file_same: "same_but_offset (snd s) (snd (snd (save_file img s)))"
  by (simp add: save_file_frame same_but_offset_refl)

lemma capture_full_page_frame:
  "same_but_offset (snd s) (snd (snd (capture_full_page sh s)))"
proof -
  have both: "same_but_offset (snd s)
     (snd (snd (and_then (on_browser (scroll_window_to_position sh 0)) (\<lambda>_.
        and_then (on_browser (hide_elements sh fs)) (\<lambda>_.
        and_then (on_browser (get_image_data sh True)) (\<lambda>header_image.
        and_then (on_browser (show_elements sh fs)) (\<lambda>_.
        and_then (on_browser (scroll_window_to_position sh 40000)) (\<lambda>_.
        and_then (on_browser (hide_elements sh hs)) (\<lambda>_.
        and_then (on_browser (get_image_data sh False)) (\<lambda>footer_image.
        and_then (on_browser (show_elements sh hs)) (\<lambda>_.
        and_then (stitch header_image footer_image) save_file)))))))) s)))" for hs fs
    by (intro and_then_frame on_browser_same save_file_same stitch_frame)
  have one: "same_but_offset (snd s)
     (snd (snd (and_then (on_browser (scroll_window_to_position sh n)) (\<lambda>_.
        and_then (on_browser (get_image_data sh False)) save_file) s)))" for n
    by (intro and_then_frame on_browser_same save_file_same)
  have none: "same_but_offset (snd s)
     (snd (snd (and_then (on_browser (get_image_data sh False)) save_file s)))"
    by (intro and_then_frame on_browser_same save_file_same)
  show ?thesis
    unfolding capture_full_page_def using both one none by simp
qed

lemma scrolling_loop_frame:
  fixes sh0 :: "('s, 'p::zero) selenium_helper"
  assumes "scrolling_loop sh0 css0 vo0 pad0 imgs0 s0 = Some y0"
  shows "same_but_offset (snd s0) (snd (snd y0))"
proof (rule scrolling_loop.raw_induct[where
         P = "\<lambda>sh css vo pad imgs s y. same_but_offset (snd s) (snd (snd y))", OF _ assms])
  fix loop :: "('s, 'p) selenium_helper \<Rightarrow> string \<Rightarrow> bool \<Rightarrow> int \<Rightarrow> 'p image_file list
                 \<Rightarrow> 's \<times> config \<Rightarrow> ((error + 'p image_file list) \<times> 's \<times> config) option"
    and sh css vo pad imgs s y
  assume IH: "\<And>sh css vo pad imgs s y. loop sh css vo pad imgs s = Some y
                \<Longrightarrow> same_but_offset (snd s) (snd (snd y))"
    and body: "(case if vo then on_browser (capture_single_viewport sh (snd s)) s
                     else capture_full_page sh s of
        (Inl e, s1) \<Rightarrow> Some (Inl e, s1)
      | (Inr img, s1) \<Rightarrow>
          (case on_browser (get_is_element_scroll_position_at_bottom sh css) s1 of
             (Inl e, s2) \<Rightarrow> Some (Inl e, s2)
           | (Inr at_bottom, s2) \<Rightarrow>
               if at_bottom then Some (Inr (imgs @ [img]), s2)
               else (case on_browser (scroll_an_element sh css False (Some pad)) s2 of
                       (Inl e, s3) \<Rightarrow> Some (Inl e, s3)
                     | (Inr u, s3) \<Rightarrow> loop sh css vo pad (imgs @ [img]) s3))) = Some y"
  note 1 = IH body
  let ?cap = "if vo then on_browser (capture_single_viewport sh (snd s)) s else capture_full_page sh s"
  have c1: "same_but_offset (snd s) (snd (snd ?cap))"
    by (simp add: on_browser_same capture_full_page_frame)
  obtain r1 s1 where cap: "?cap = (r1, s1)" by (cases ?cap)
  then have f1: "same_but_offset (snd s) (snd s1)" using c1 by simp
  show "same_but_offset (snd s) (snd (snd y))"
  proof (cases r1)
    case (Inl e)
    then show ?thesis using body cap f1 by auto
  next
    case (Inr img)
    obtain r2 s2 where q: "on_browser (get_is_element_scroll_position_at_bottom sh css) s1 = (r2, s2)"
      by (cases "on_browser (get_is_element_scroll_position_at_bottom sh css) s1")
    have f2: "snd s2 = snd s1" using on_browser_frame[of "get_is_element_scroll_position_at_bottom sh css" s1] q by simp
    show ?thesis
    proof (cases r2)
      case (Inl e)
      then show ?thesis using body cap Inr q f1 f2 by auto
    next
      case at: (Inr at_bottom)
      show ?thesis
      proof (cases at_bottom)
        case True
        then show ?thesis using body cap Inr q at f1 f2 by auto
      next
        case False
        obtain r3 s3 where m: "on_browser (scroll_an_element sh css False (Some pad)) s2 = (r3, s3)"
          by (cases "on_browser (scroll_an_element sh css False (Some pad)) s2")
        have f3: "snd s3 = snd s2" using on_browser_frame[of "scroll_an_element sh css False (Some pad)" s2] m by simp
        show ?thesis
        proof (cases r3)
          case (Inl e)
          then show ?thesis using body cap Inr q at False m f1 f2 f3 by auto
        next
          case u: (Inr u)
          then have "loop sh css vo pad (imgs @ [img]) s3 = Some y"
            using body cap Inr q at False m by simp
          from IH[OF this] have "same_but_offset (snd s3) (snd (snd y))" .
          then show ?thesis using f1 f2 f3 same_but_offset_trans by metis
        qed
      qed
    qed
  qed
qed

lemma wrapped_state: "snd (wrapped x f g) = snd x"
  by (cases x; cases "fst x") auto

lemma capture_page_frame:
  assumes "capture_page sh viewport_only padding s = Some (r, s')"
  shows "same_but_offset (snd s) (snd s')"
proof (cases viewport_only)
  case True
  then have "s' = snd (wrapped (on_browser (capture_single_viewport sh (snd s)) s) One reraise)"
    using assms by (auto simp: capture_page_def)
  then show ?thesis by (simp add: wrapped_state on_browser_same)
next
  case False
  show ?thesis
  proof (cases "paginated (snd s)")
    case True
    then obtain r0 b' where "wrapped (r0, (b', snd s)) Many reraise = (r, s')"
      using assms False by (auto simp: capture_page_def split: option.splits)
    then have "s' = snd (wrapped (r0, (b', snd s)) Many reraise)" by simp
    then show ?thesis by (simp add: wrapped_state same_but_offset_refl)
  next
    case np: False
    then have "s' = snd (wrapped (capture_full_page sh s) One reraise)"
      using assms False by (auto simp: capture_page_def)
    then show ?thesis by (simp add: wrapped_state capture_full_page_frame)
  qed
qed

lemma capture_scrolling_element_frame:
  assumes "capture_scrolling_element sh css viewport_only scroll_padding_arg s = Some (r, s')"
  shows "same_but_offset (snd s) (snd s')"
proof -
  obtain r1 s1 where t: "on_browser (scroll_an_element sh css True None) s = (r1, s1)"
    by (cases "on_browser (scroll_an_element sh css True None) s")
  have f1: "snd s1 = snd s" using on_browser_frame[of "scroll_an_element sh css True None" s] t by simp
  show ?thesis
  proof (cases r1)
    case (Inl e)
    then have "s' = s1" using assms t by (auto simp: capture_scrolling_element_def Let_def)
    then show ?thesis using f1 by (simp add: same_but_offset_refl)
  next
    case (Inr u)
    then obtain y where y: "scrolling_loop sh css viewport_only
          (padding_or scroll_padding_arg (scroll_padding (snd s))) [] s1 = Some y"
        and s': "s' = snd (wrapped y Many reraise)"
      using assms t by (auto simp: capture_scrolling_element_def Let_def split: option.splits)
    from scrolling_loop_frame[OF y] have "same_but_offset (snd s1) (snd (snd y))" .
    then show ?thesis using s' f1 by (simp add: wrapped_state)
  qed
qed

lemma scrolling_loop_once:
  assumes "capture_full_page sh s = (Inr f, s1)"
    and "on_browser (get_is_element_scroll_position_at_bottom sh css) s1 = (Inr True, s2)"
  shows "scrolling_loop sh css False pad imgs s = Some (Inr (imgs @ [f]), s2)"
  using assms by (subst scrolling_loop.simps) simp

lemma capture_scrolling_element_run:
  assumes "on_browser (scroll_an_element sh css True None) s = (Inr u, s1)"
    and "scrolling_loop sh css vo (padding_or arg (scroll_padding (snd s))) [] s1 = Some y"
  shows "capture_scrolling_element sh css vo arg s = Some (wrapped y Many reraise)"
  using assms by (simp add: capture_scrolling_element_def)

text \<open>
  Claim C6, amended (what the capture operations leave of the configuration). Whenever
  \<open>capture_page\<close> or \<open>capture_scrolling_element\<close> returns, with a result or an exception,
  the fields \<open>paginated\<close>, \<open>headers\<close>, \<open>footers\<close>, \<open>scroll_padding\<close> and \<open>file_extenson\<close>
  of the instance are as before the call, and \<open>pixel_match_offset\<close> is at most what it was.
  The stitching overwrites \<open>pixel_match_offset\<close> with the smaller of its value and the
  header image's height, whether it then returns or raises.
\<close>

theorem configuration_frame:
  fixes sh :: "('s, 'p::zero) selenium_helper" and H F :: "('q::zero) image"
  shows "(capture_page sh viewport_only padding (b, self) = Some (r, (b', self'))
            \<longrightarrow> same_but_offset self self')
   \<and> (capture_scrolling_element sh css viewport_only scroll_padding_arg (b, self)
          = Some (r2, (b2, self2))
        \<longrightarrow> same_but_offset self self2)
   \<and> snd (crop_and_stitch_image self H F)
        = self\<lparr>pixel_match_offset := min (pixel_match_offset self) (int (height H))\<rparr>"
  using capture_page_frame[of sh viewport_only padding "(b, self)" r "(b', self')"]
    capture_scrolling_element_frame[of sh css viewport_only scroll_padding_arg "(b, self)" r2 "(b2, self2)"]
    crop_and_stitch_image_config[of self H F] clamp_offset_min[of self "height H"]
  by simp

theorem configuration_frame_witness:
  "capture_page (clamping_browser 4 3 1 \<lparr>img_width = 1, img_rows = [ [4::nat], [5], [6], [7] ]\<rparr>)
      False None (0, default_config\<lparr>headers := Some [''h''], footers := Some [''f'']\<rparr>)
     = Some (Inr (One \<lparr>file_format = ''PNG'',
                       file_image = \<lparr>img_width = 1, img_rows = [ [4], [5], [6], [7] ]\<rparr>\<rparr>),
             (1, default_config\<lparr>headers := Some [''h''], footers := Some [''f''],
                                pixel_match_offset := 3\<rparr>))
   \<and> capture_scrolling_element
        (clamping_browser 4 3 1 \<lparr>img_width = 1, img_rows = [ [4::nat], [5], [6], [7] ]\<rparr>)
        ''div'' False None (0, default_config\<lparr>headers := Some [''h''], footers := Some [''f'']\<rparr>)
     = Some (Inr (Many [\<lparr>file_format = ''PNG'',
                         file_image = \<lparr>img_width = 1, img_rows = [ [4], [5], [6], [7] ]\<rparr>\<rparr>]),
             (1, default_config\<lparr>headers := Some [''h''], footers := Some [''f''],
                                pixel_match_offset := 3\<rparr>))
   \<and> same_but_offset (default_config\<lparr>headers := Some [''h''], footers := Some [''f'']\<rparr>)
        (default_config\<lparr>headers := Some [''h''], footers := Some [''f''], pixel_match_offset := 3\<rparr>)"
proof -
  let ?page = "\<lparr>img_width = 1, img_rows = [ [4::nat], [5], [6], [7] ]\<rparr>"
  let ?sh = "clamping_browser 4 3 1 ?page"
  let ?cfg = "default_config\<lparr>headers := Some [''h''], footers := Some [''f'']\<rparr>"
  let ?cfg' = "default_config\<lparr>headers := Some [''h''], footers := Some [''f''], pixel_match_offset := 3\<rparr>"
  let ?file = "\<lparr>file_format = ''PNG'', file_image = \<lparr>img_width = 1, img_rows = [ [4::nat], [5], [6], [7] ]\<rparr>\<rparr>"
  have p: "capture_page ?sh False None (0, ?cfg) = Some (Inr (One ?file), (1, ?cfg'))"
    by code_simp
  have cf: "capture_full_page ?sh (0, ?cfg) = (Inr ?file, (1, ?cfg'))"
    by code_simp
  have q: "on_browser (get_is_element_scroll_position_at_bottom ?sh ''div'') (1, ?cfg')
             = (Inr True, (1, ?cfg'))"
    by (simp add: on_browser_def clamping_browser_def)
  have t: "on_browser (scroll_an_element ?sh ''div'' True None) (0, ?cfg) = (Inr (), (0, ?cfg))"
    by (simp add: on_browser_def clamping_browser_def)
  have l: "scrolling_loop ?sh ''div'' False (padding_or None (scroll_padding (snd (0::int, ?cfg)))) []
             (0, ?cfg) = Some (Inr ([] @ [?file]), (1, ?cfg'))"
    by (rule scrolling_loop_once[OF cf q])
  have e: "capture_scrolling_element ?sh ''div'' False None (0, ?cfg) = Some (Inr (Many [?file]), (1, ?cfg'))"
    using capture_scrolling_element_run[OF t l] by simp
  from configuration_frame[of ?sh False None 0 ?cfg "Inr (One ?file)" 1 ?cfg'
         "''div''" None "Inr (Many [?file])" 1 ?cfg' ?page ?page] p e
  show ?thesis by simp
qed

text \<open>
  Claim C6 as stated fails: a full-page capture with a header and a footer selector, on a
  page of 3 rows in a viewport of 2, stitches a header image of height 2 and leaves
  \<open>pixel_match_offset = 2\<close> on the instance, where it was 100.
\<close>

theorem configuration_offset_overwritten:
  "capture_page (clamping_browser 3 2 1 \<lparr>img_width = 1, img_rows = [ [1::nat], [2], [3] ]\<rparr>) False None
      (0, default_config\<lparr>headers := Some [''h''], footers := Some [''f'']\<rparr>)
   = Some (Inr (One \<lparr>file_format = ''PNG'',
                      file_image = \<lparr>img_width = 1, img_rows = [ [1], [2], [3] ]\<rparr>\<rparr>),
           (1, default_config\<lparr>headers := Some [''h''], footers := Some [''f''], pixel_match_offset := 2\<rparr>))
   \<and> pixel_match_offset
        (default_config\<lparr>headers := Some [''h''], footers := Some [''f''], pixel_match_offset := 2\<rparr>)
      \<noteq> pixel_match_offset (default_config\<lparr>headers := Some [''h''], footers := Some [''f'']\<rparr>)"
proof -
  have "capture_page (clamping_browser 3 2 1 \<lparr>img_width = 1, img_rows = [ [1::nat], [2], [3] ]\<rparr>) False None
      (0, default_config\<lparr>headers := Some [''h''], footers := Some [''f'']\<rparr>)
   = Some (Inr (One \<lparr>file_format = ''PNG'',
                      file_image = \<lparr>img_width = 1, img_rows = [ [1], [2], [3] ]\<rparr>\<rparr>),
           (1, default_config\<lparr>headers := Some [''h''], footers := Some [''f''], pixel_match_offset := 2\<rparr>))"
    by code_simp
  then show ?thesis
    by (simp add: default_config_def DEFAULT_PIXEL_MATCH_OFFSET_def)
qed

end
